theory Spec2Isabelle
  imports Main "HOL-Library.AList"
begin

section \<open>Domain catalog of the playing field\<close>

text \<open>
  The enumerations of \<^verbatim>\<open>aplicacion.py\<close>. \<^verbatim>\<open>Section\<close> is an \<^verbatim>\<open>Enum\<close> class whose four
  attributes are the four drawing functions; here it is a datatype, and the drawing
  function of a section is \<open>section_draw\<close> below.
\<close>

datatype Section = NORTH | SOUTH | WEST | EAST

datatype Direction = CW | CCW

datatype Intersection =
    TopLeft | TopMiddle | TopRight
  | T4 | X2 | T3
  | T2 | X1 | T1
  | BottomLeft | BottomMiddle | BottomRight

datatype Color = RED | GREEN | UNDEFINED

record Obstacle =
  position :: Intersection
  color :: Color

datatype StartZone = Z1 | Z2 | Z3 | Z4 | Z5 | Z6

definition is_red :: "Obstacle \<Rightarrow> bool" where
  "is_red ob = (color ob = RED)"

definition is_green :: "Obstacle \<Rightarrow> bool" where
  "is_green ob = (color ob = GREEN)"

section \<open>Geometry: the four section transforms\<close>

definition width :: int where "width = 3000"
definition height :: int where "height = width"
definition border :: int where "border = 10"

text \<open>
  The image is the NumPy array \<^verbatim>\<open>template\<close> of \<open>height + 2 * border\<close> rows and
  \<open>width + 2 * border\<close> columns; a pixel is a BGR triple. The image is a function from
  row and column to pixel, of which only the rows and columns of the array matter.
\<close>

type_synonym bgr = "nat \<times> nat \<times> nat"
type_synonym image = "int \<Rightarrow> int \<Rightarrow> bgr"

definition img_rows :: int where "img_rows = height + border * 2"
definition img_cols :: int where "img_cols = width + border * 2"

text \<open>
  NumPy resolves one bound of a slice \<^verbatim>\<open>a:b\<close> on an axis of length \<open>n\<close> as Python's
  \<^verbatim>\<open>slice.indices\<close> does: a negative bound counts from the end, and the result is
  clipped to \<open>0..n\<close>. The assignment \<^verbatim>\<open>img[a:b, c:d] = colour\<close> writes the pixels whose
  row lies in the resolved \<open>a..<b\<close> and whose column lies in the resolved \<open>c..<d\<close>.
\<close>

definition slice_bound :: "int \<Rightarrow> int \<Rightarrow> int" where
  "slice_bound n i = (if i < 0 then max 0 (i + n) else min i n)"

definition setitem :: "image \<Rightarrow> int \<Rightarrow> int \<Rightarrow> int \<Rightarrow> int \<Rightarrow> bgr \<Rightarrow> image" where
  "setitem img a b c d colour =
     (\<lambda>r k. if slice_bound img_rows a \<le> r \<and> r < slice_bound img_rows b \<and>
               slice_bound img_cols c \<le> k \<and> k < slice_bound img_cols d
            then colour else img r k)"

definition on_north :: "image \<Rightarrow> int \<Rightarrow> int \<Rightarrow> int \<Rightarrow> int \<Rightarrow> bgr \<Rightarrow> image" where
  "on_north img h1 w1 h2 w2 c =
     setitem img (min h1 h2 + border) (max h1 h2 + border)
                 (min w1 w2 + border) (max w1 w2 + border) c"

definition on_south :: "image \<Rightarrow> int \<Rightarrow> int \<Rightarrow> int \<Rightarrow> int \<Rightarrow> bgr \<Rightarrow> image" where
  "on_south img h1 w1 h2 w2 c =
     setitem img (height - max h1 h2 + border) (height - min h1 h2 + border)
                 (width - max w1 w2 + border) (width - min w1 w2 + border) c"

definition on_west :: "image \<Rightarrow> int \<Rightarrow> int \<Rightarrow> int \<Rightarrow> int \<Rightarrow> bgr \<Rightarrow> image" where
  "on_west img h1 w1 h2 w2 c =
     setitem img (height - max w1 w2 + border) (height - min w1 w2 + border)
                 (min h1 h2 + border) (max h1 h2 + border) c"

definition on_east :: "image \<Rightarrow> int \<Rightarrow> int \<Rightarrow> int \<Rightarrow> int \<Rightarrow> bgr \<Rightarrow> image" where
  "on_east img h1 w1 h2 w2 c =
     setitem img (min w1 w2 + border) (max w1 w2 + border)
                 (width - max h1 h2 + border) (width - min h1 h2 + border) c"

fun section_draw :: "Section \<Rightarrow> image \<Rightarrow> int \<Rightarrow> int \<Rightarrow> int \<Rightarrow> int \<Rightarrow> bgr \<Rightarrow> image" where
  "section_draw NORTH = on_north"
| "section_draw SOUTH = on_south"
| "section_draw WEST = on_west"
| "section_draw EAST = on_east"

text \<open>
  Vocabulary of the geometry claim. \<open>fill_rect img row0 col0 hgt wid c\<close> is the image
  \<open>img\<close> with the axis-aligned rectangle of \<open>hgt\<close> rows and \<open>wid\<close> columns whose first
  pixel is at row \<open>row0\<close>, column \<open>col0\<close> painted in \<open>c\<close>. \<open>mirror\<close> turns the image by a
  half turn, that is, mirrors it in both axes. A canonical rectangle is \<open>on_image\<close>
  when its two corners lie on the array (the field and its outer walls).
\<close>

definition fill_rect :: "image \<Rightarrow> int \<Rightarrow> int \<Rightarrow> int \<Rightarrow> int \<Rightarrow> bgr \<Rightarrow> image" where
  "fill_rect img row0 col0 hgt wid c =
     (\<lambda>r k. if row0 \<le> r \<and> r < row0 + hgt \<and> col0 \<le> k \<and> k < col0 + wid then c else img r k)"

definition mirror :: "image \<Rightarrow> image" where
  "mirror img = (\<lambda>r k. img (img_rows - 1 - r) (img_cols - 1 - k))"

definition on_image :: "int \<Rightarrow> int \<Rightarrow> int \<Rightarrow> int \<Rightarrow> bool" where
  "on_image h1 w1 h2 w2 =
     (- border \<le> min h1 h2 \<and> max h1 h2 \<le> height + border \<and>
      - border \<le> min w1 w2 \<and> max w1 w2 \<le> width + border)"

section \<open>The random source\<close>

text \<open>
  The functions \<^verbatim>\<open>randint\<close>, \<^verbatim>\<open>choice\<close> and \<^verbatim>\<open>sample\<close> of Python's \<^verbatim>\<open>random\<close> module
  draw from the generator's hidden state. Here the draws are explicit: a tape of
  natural numbers is threaded through every function that draws, and the primitive
  \<^verbatim>\<open>_randbelow(n)\<close> delivers the next number of the tape modulo \<open>n\<close>, so that it can
  deliver every value below \<open>n\<close> and no other. A function that needs a draw when the tape
  is used up is \<open>Starved\<close>: the program would still be running. An exception of the
  source is \<open>Raise\<close>, a normal return is \<open>Return\<close> of the value and the rest of the tape.
\<close>

datatype error = ValueError | RuntimeError | IndexError | KeyError

datatype 'a result = Starved | Raise error | Return 'a

type_synonym tape = "nat list"

fun bind :: "'a result \<Rightarrow> ('a \<Rightarrow> 'b result) \<Rightarrow> 'b result" where
  "bind Starved f = Starved"
| "bind (Raise e) f = Raise e"
| "bind (Return x) f = f x"

fun randbelow :: "nat \<Rightarrow> tape \<Rightarrow> (nat \<times> tape) result" where
  "randbelow n [] = Starved"
| "randbelow n (r # tape) = Return (r mod n, tape)"

text \<open>\<^verbatim>\<open>randint(a, b)\<close> is \<^verbatim>\<open>a + _randbelow(b - a + 1)\<close> and raises on an empty range.\<close>

definition randint :: "int \<Rightarrow> int \<Rightarrow> tape \<Rightarrow> (int \<times> tape) result" where
  "randint a b tape =
     (if b < a then Raise ValueError
      else bind (randbelow (nat (b - a + 1)) tape) (\<lambda>(r, tape'). Return (a + int r, tape')))"

text \<open>\<^verbatim>\<open>choice(seq)\<close> is \<^verbatim>\<open>seq[_randbelow(len(seq))]\<close> and raises on an empty sequence.\<close>

definition choice :: "'a list \<Rightarrow> tape \<Rightarrow> ('a \<times> tape) result" where
  "choice seq tape =
     (if seq = [] then Raise IndexError
      else bind (randbelow (length seq) tape) (\<lambda>(i, tape'). Return (seq ! i, tape')))"

text \<open>
  \<^verbatim>\<open>sample(population, k)\<close> on a short population copies it into a pool and, \<open>k\<close> times,
  takes the element at a random position of the pool and moves the last element of
  the pool into that position. It raises when \<open>k\<close> is negative or exceeds the
  population.
\<close>

fun sample_pool :: "'a list \<Rightarrow> nat \<Rightarrow> tape \<Rightarrow> ('a list \<times> tape) result" where
  "sample_pool pool 0 tape = Return ([], tape)"
| "sample_pool pool (Suc k) tape =
     (case randbelow (length pool) tape of
        Starved \<Rightarrow> Starved
      | Raise e \<Rightarrow> Raise e
      | Return (j, tape') \<Rightarrow>
          (case sample_pool (butlast (pool[j := last pool])) k tape' of
             Starved \<Rightarrow> Starved
           | Raise e \<Rightarrow> Raise e
           | Return (res, tape'') \<Rightarrow> Return (pool ! j # res, tape'')))"

definition sample :: "'a list \<Rightarrow> int \<Rightarrow> tape \<Rightarrow> ('a list \<times> tape) result" where
  "sample population k tape =
     (if k < 0 \<or> int (length population) < k then Raise ValueError
      else sample_pool population (nat k) tape)"

section \<open>Open-round generator\<close>

text \<open>
  \<^verbatim>\<open>InnerWall\<close> keeps one flag per side; \<^verbatim>\<open>on_side\<close> reads the flag of a side through
  the getter of that side.
\<close>

record InnerWall =
  north :: bool
  west :: bool
  south :: bool
  east :: bool
  fixed_center :: bool

definition InnerWall_init :: "Section list \<Rightarrow> InnerWall" where
  "InnerWall_init sides =
     \<lparr>north = NORTH \<in> set sides, west = WEST \<in> set sides,
      south = SOUTH \<in> set sides, east = EAST \<in> set sides, fixed_center = True\<rparr>"

fun on_side :: "InnerWall \<Rightarrow> Section \<Rightarrow> bool" where
  "on_side w NORTH = north w"
| "on_side w WEST = west w"
| "on_side w SOUTH = south w"
| "on_side w EAST = east w"

definition sections :: "Section list" where
  "sections = [NORTH, WEST, SOUTH, EAST]"

text \<open>\<^verbatim>\<open>list(StartZone)\<close>: the members in the order of their definition.\<close>

definition list_StartZone :: "StartZone list" where
  "list_StartZone = [Z1, Z2, Z3, Z4, Z5, Z6]"

definition allowed_zones :: "InnerWall \<Rightarrow> Section \<Rightarrow> StartZone list" where
  "allowed_zones inner_walls starting_section =
     (if on_side inner_walls starting_section then [Z6, Z5, Z4, Z3] else list_StartZone)"

text \<open>
  \<^verbatim>\<open>draw_layout\<close> returns the painted image; the model returns what it paints: the start
  zone in the start section, the inner walls that are drawn and the arrow of the
  driving direction.
\<close>

record open_layout =
  starting_section :: Section
  starting_zone :: StartZone
  inner_walls :: InnerWall
  narrow :: Direction

definition draw_layout :: "Direction \<Rightarrow> bool \<Rightarrow> tape \<Rightarrow> (open_layout \<times> tape) result" where
  "draw_layout direction fixed tape =
     bind (randint 0 4 tape) (\<lambda>(k, tape1).
     bind (sample sections k tape1) (\<lambda>(inner_walls_config, tape2).
     bind (choice sections tape2) (\<lambda>(section, tape3).
     bind (choice (allowed_zones (InnerWall_init inner_walls_config) section) tape3)
       (\<lambda>(zone, tape4).
     Return (\<lparr>starting_section = section, starting_zone = zone,
              inner_walls = (if fixed then InnerWall_init []
                             else InnerWall_init inner_walls_config),
              narrow = direction\<rparr>, tape4)))))"

definition randomize_and_draw_layout_for_open ::
  "Direction \<Rightarrow> tape \<Rightarrow> (open_layout \<times> tape) result" where
  "randomize_and_draw_layout_for_open direction = draw_layout direction False"

definition randomize_and_draw_layout_fixed ::
  "Direction \<Rightarrow> tape \<Rightarrow> (open_layout \<times> tape) result" where
  "randomize_and_draw_layout_fixed direction = draw_layout direction True"

section \<open>Obstacle-round catalog\<close>

text \<open>
  The three module-level tables the obstacle round reads. Indices of obstacle sets are
  list positions. \<open>the_catalog\<close> is the value the module gives them.
\<close>

record catalog =
  obstacles_sets :: "Obstacle list list"
  mandatory_obstacles_sets :: "(Color \<times> nat) list"
  required_obstacles_sets :: "nat list"

definition Obstacle_init :: "Intersection \<Rightarrow> Color \<Rightarrow> Obstacle" where
  "Obstacle_init p c = \<lparr>position = p, color = c\<rparr>"

definition the_catalog :: catalog where
  "the_catalog =
    \<lparr>obstacles_sets =
       [[Obstacle_init T1 GREEN],
        [Obstacle_init T1 RED],
        [Obstacle_init X1 GREEN],
        [Obstacle_init X1 RED],
        [Obstacle_init T2 GREEN],
        [Obstacle_init T2 RED],
        [Obstacle_init T3 GREEN],
        [Obstacle_init T3 RED],
        [Obstacle_init X2 GREEN],
        [Obstacle_init X2 RED],
        [Obstacle_init T4 GREEN],
        [Obstacle_init T4 RED],
        [Obstacle_init T3 GREEN, Obstacle_init T2 GREEN],
        [Obstacle_init T3 GREEN, Obstacle_init T2 RED],
        [Obstacle_init T3 RED, Obstacle_init T2 GREEN],
        [Obstacle_init T3 RED, Obstacle_init T2 RED],
        [Obstacle_init T1 GREEN, Obstacle_init T4 GREEN],
        [Obstacle_init T1 GREEN, Obstacle_init T4 RED],
        [Obstacle_init T1 RED, Obstacle_init T4 GREEN],
        [Obstacle_init T1 RED, Obstacle_init T4 RED],
        [Obstacle_init T1 GREEN, Obstacle_init T2 GREEN],
        [Obstacle_init T1 GREEN, Obstacle_init T2 RED],
        [Obstacle_init T1 RED, Obstacle_init T2 GREEN],
        [Obstacle_init T1 GREEN, Obstacle_init T2 RED],
        [Obstacle_init T1 RED, Obstacle_init T2 GREEN],
        [Obstacle_init T1 RED, Obstacle_init T2 RED],
        [Obstacle_init T3 GREEN, Obstacle_init T4 GREEN],
        [Obstacle_init T3 GREEN, Obstacle_init T4 RED],
        [Obstacle_init T3 RED, Obstacle_init T4 GREEN],
        [Obstacle_init T3 GREEN, Obstacle_init T4 RED],
        [Obstacle_init T3 RED, Obstacle_init T4 GREEN],
        [Obstacle_init T3 RED, Obstacle_init T4 RED]],
     mandatory_obstacles_sets = [(GREEN, 8), (RED, 9)],
     required_obstacles_sets = [21, 22, 27, 28]\<rparr>"

fun forbidden_intersections_in_start_zone ::
  "Direction \<Rightarrow> (StartZone \<times> Intersection list) list" where
  "forbidden_intersections_in_start_zone CW = [(Z3, [T1, T3]), (Z4, [X1, X2])]"
| "forbidden_intersections_in_start_zone CCW = [(Z3, [X1, X2]), (Z4, [T2, T4])]"

definition forbidden_intersections_in_parking_section :: "Intersection list" where
  "forbidden_intersections_in_parking_section = [T3, T4, X2]"

section \<open>Obstacle-round generator\<close>

text \<open>
  The variables of the rejection loop. A Python \<^verbatim>\<open>dict\<close> is an association list in
  insertion order; a Python \<^verbatim>\<open>set\<close> is a list without duplicates (\<^verbatim>\<open>add\<close> is
  \<open>List.insert\<close>). The order in which Python enumerates a set is not specified; the
  model enumerates in insertion order, and nothing proved below depends on that order.
\<close>

record search_vars =
  chosen_obstacles_sets_indices :: "nat list"
  forbidden_start_zones :: "(nat \<times> StartZone list) list"
  obstacles_set_conflicting_with_parking_section :: "nat list"
  obstacles_amount :: int
  green_amount :: int
  red_amount :: int
  obstacles_set_suitable_for_parking_section :: "nat list"
  satisfied :: bool

text \<open>
  The loops that redraw \<^verbatim>\<open>os1\<close> and \<^verbatim>\<open>os2\<close>: while the index equals one of the
  excluded indices, draw \<^verbatim>\<open>randint(0, len(obstacles_sets) - 1)\<close>.
\<close>

lemma randbelow_shorter:
  "randbelow n tape = Return (r, tape') \<Longrightarrow> length tape' < length tape"
  by (cases tape) auto

lemma bind_Return:
  "bind m f = Return y \<Longrightarrow> \<exists>x. m = Return x \<and> f x = Return y"
  by (cases m) auto

lemma randint_shorter:
  "randint a b tape = Return (v, tape') \<Longrightarrow> length tape' < length tape"
  by (auto simp: randint_def split: if_splits dest!: bind_Return randbelow_shorter)

lemma choice_shorter:
  "choice seq tape = Return (v, tape') \<Longrightarrow> length tape' < length tape"
  by (auto simp: choice_def split: if_splits dest!: bind_Return randbelow_shorter)

function redraw :: "catalog \<Rightarrow> nat list \<Rightarrow> nat \<Rightarrow> tape \<Rightarrow> (nat \<times> tape) result" where
  "redraw cat excluded os tape =
     (if os \<in> set excluded then
        (case randint 0 (int (length (obstacles_sets cat)) - 1) tape of
           Starved \<Rightarrow> Starved
         | Raise e \<Rightarrow> Raise e
         | Return (v, tape') \<Rightarrow> redraw cat excluded (nat v) tape')
      else Return (os, tape))"
  by pat_completeness auto
termination
  by (relation "measure (\<lambda>(cat, excluded, os, tape). length tape)")
     (auto dest: randint_shorter)

text \<open>The body of the loop over the obstacles of one chosen set.\<close>

fun zones_loop ::
  "(StartZone \<times> Intersection list) list \<Rightarrow> Obstacle \<Rightarrow> nat \<Rightarrow>
   (nat \<times> StartZone list) list \<Rightarrow> (nat \<times> StartZone list) list" where
  "zones_loop [] one_obstacle idx fsz = fsz"
| "zones_loop ((zone, xs) # rest) one_obstacle idx fsz =
     zones_loop rest one_obstacle idx
       (if position one_obstacle \<in> set xs then AList.map_entry idx (List.insert zone) fsz
        else fsz)"

fun parking_loop :: "Intersection list \<Rightarrow> Obstacle \<Rightarrow> nat \<Rightarrow> nat list \<Rightarrow> nat list" where
  "parking_loop [] one_obstacle idx conflicting = conflicting"
| "parking_loop (intersection # rest) one_obstacle idx conflicting =
     parking_loop rest one_obstacle idx
       (if position one_obstacle = intersection then List.insert idx conflicting
        else conflicting)"

definition tally_color :: "Obstacle \<Rightarrow> search_vars \<Rightarrow> search_vars result" where
  "tally_color one_obstacle v =
     (if is_green one_obstacle then Return (v\<lparr>green_amount := green_amount v + 1\<rparr>)
      else if is_red one_obstacle then Return (v\<lparr>red_amount := red_amount v + 1\<rparr>)
      else Raise ValueError)"

definition obstacle_body ::
  "Direction \<Rightarrow> nat \<Rightarrow> Obstacle \<Rightarrow> search_vars \<Rightarrow> search_vars result" where
  "obstacle_body direction idx one_obstacle v =
     bind (tally_color one_obstacle v) (\<lambda>v1.
       Return (v1\<lparr>forbidden_start_zones :=
                    zones_loop (forbidden_intersections_in_start_zone direction)
                      one_obstacle idx (forbidden_start_zones v1),
                  obstacles_set_conflicting_with_parking_section :=
                    parking_loop forbidden_intersections_in_parking_section
                      one_obstacle idx
                      (obstacles_set_conflicting_with_parking_section v1)\<rparr>))"

fun obstacles_loop ::
  "Direction \<Rightarrow> nat \<Rightarrow> Obstacle list \<Rightarrow> search_vars \<Rightarrow> search_vars result" where
  "obstacles_loop direction idx [] v = Return v"
| "obstacles_loop direction idx (one_obstacle # rest) v =
     (case obstacle_body direction idx one_obstacle v of
        Starved \<Rightarrow> Starved
      | Raise e \<Rightarrow> Raise e
      | Return v1 \<Rightarrow> obstacles_loop direction idx rest v1)"

text \<open>The loop over the four chosen indices.\<close>

fun sets_loop ::
  "catalog \<Rightarrow> Direction \<Rightarrow> nat list \<Rightarrow> search_vars \<Rightarrow> search_vars result" where
  "sets_loop cat direction [] v = Return v"
| "sets_loop cat direction (idx # rest) v =
     (if length (obstacles_sets cat) \<le> idx then Raise IndexError
      else
        (case obstacles_loop direction idx (obstacles_sets cat ! idx)
                (v\<lparr>obstacles_amount :=
                      obstacles_amount v + int (length (obstacles_sets cat ! idx)),
                    forbidden_start_zones :=
                      AList.update idx [] (forbidden_start_zones v)\<rparr>) of
           Starved \<Rightarrow> Starved
         | Raise e \<Rightarrow> Raise e
         | Return v1 \<Rightarrow> sets_loop cat direction rest v1))"

text \<open>
  The loop that deletes from \<^verbatim>\<open>forbidden_start_zones\<close> while iterating over it. The
  iterator of a \<^verbatim>\<open>dict\<close> remembers the size of the dictionary when it is created and,
  at every step, raises \<^verbatim>\<open>RuntimeError\<close> before anything else when the size has changed.
  \<open>used\<close> is the remembered size and \<open>keys\<close> the keys still to visit.
\<close>

fun delete_loop ::
  "nat \<Rightarrow> nat list \<Rightarrow> (nat \<times> StartZone list) list \<Rightarrow> (nat \<times> StartZone list) list result"
  where
  "delete_loop used keys fsz =
     (if length fsz \<noteq> used then Raise RuntimeError
      else
        (case keys of
           [] \<Rightarrow> Return fsz
         | idx # rest \<Rightarrow>
             (case map_of fsz idx of
                None \<Rightarrow> Raise KeyError
              | Some zones \<Rightarrow>
                  delete_loop used rest
                    (if length zones = 2 then AList.delete idx fsz else fsz))))"

text \<open>One pass through the body of the rejection loop.\<close>

definition init_vars :: "nat list \<Rightarrow> search_vars" where
  "init_vars chosen =
     \<lparr>chosen_obstacles_sets_indices = chosen,
      forbidden_start_zones = [],
      obstacles_set_conflicting_with_parking_section = [],
      obstacles_amount = 0, green_amount = 0, red_amount = 0,
      obstacles_set_suitable_for_parking_section = [],
      satisfied = False\<rparr>"

definition decide :: "search_vars \<Rightarrow> search_vars" where
  "decide v =
     (let suitable =
            filter (\<lambda>idx. idx \<notin> set (obstacles_set_conflicting_with_parking_section v))
              (remdups (chosen_obstacles_sets_indices v))
      in v\<lparr>obstacles_set_suitable_for_parking_section := suitable,
           satisfied :=
             (abs (green_amount v - red_amount v) \<le> 1 \<and>
              obstacles_amount v > 4 \<and>
              length (forbidden_start_zones v) > 0 \<and>
              length suitable > 0)\<rparr>)"

definition search_iteration ::
  "catalog \<Rightarrow> Direction \<Rightarrow> tape \<Rightarrow> (search_vars \<times> tape) result" where
  "search_iteration cat direction tape =
     bind (choice [GREEN, RED] tape) (\<lambda>(mandatory_set_color, tape1).
     (case map_of (mandatory_obstacles_sets cat) mandatory_set_color of
        None \<Rightarrow> Raise KeyError
      | Some mandatory_obstacles_set \<Rightarrow>
     bind (choice (required_obstacles_sets cat) tape1) (\<lambda>(required_obstacles_set, tape2).
     bind (redraw cat [required_obstacles_set, mandatory_obstacles_set]
             mandatory_obstacles_set tape2) (\<lambda>(os1, tape3).
     bind (redraw cat [required_obstacles_set, mandatory_obstacles_set, os1]
             mandatory_obstacles_set tape3) (\<lambda>(os2, tape4).
     bind (sets_loop cat direction
             [mandatory_obstacles_set, required_obstacles_set, os1, os2]
             (init_vars [mandatory_obstacles_set, required_obstacles_set, os1, os2]))
       (\<lambda>v.
     bind (delete_loop (length (forbidden_start_zones v))
             (map fst (forbidden_start_zones v)) (forbidden_start_zones v))
       (\<lambda>fsz.
     Return (decide (v\<lparr>forbidden_start_zones := fsz\<rparr>), tape4))))))))"

lemma redraw_not_longer:
  "redraw cat excluded os tape = Return (v, tape') \<Longrightarrow> length tape' \<le> length tape"
proof (induction cat excluded os tape rule: redraw.induct)
  case (1 cat excluded os tape)
  show ?case
  proof (cases "os \<in> set excluded")
    case False
    with "1.prems" show ?thesis by simp
  next
    case True
    with "1.prems" obtain w tape1 where
      r: "randint 0 (int (length (obstacles_sets cat)) - 1) tape = Return (w, tape1)"
      and rec: "redraw cat excluded (nat w) tape1 = Return (v, tape')"
      by (auto split: result.splits)
    from "1.IH" [OF True r refl rec] randint_shorter [OF r] show ?thesis by simp
  qed
qed

lemma search_iteration_shorter:
  assumes "search_iteration cat direction tape = Return (v, tape')"
  shows "length tape' < length tape"
proof -
  from assms obtain c tape1 m r tape2 os1 tape3 os2 where
    a: "choice [GREEN, RED] tape = Return (c, tape1)"
    and b: "choice (required_obstacles_sets cat) tape1 = Return (r, tape2)"
    and c: "redraw cat [r, m] m tape2 = Return (os1, tape3)"
    and d: "redraw cat [r, m, os1] m tape3 = Return (os2, tape')"
    unfolding search_iteration_def
    by (auto dest!: bind_Return split: option.splits)
  from choice_shorter [OF a] choice_shorter [OF b] redraw_not_longer [OF c]
    redraw_not_longer [OF d]
  show ?thesis by simp
qed

text \<open>The rejection loop: repeat the body until \<^verbatim>\<open>satisfied\<close>.\<close>

function search :: "catalog \<Rightarrow> Direction \<Rightarrow> tape \<Rightarrow> (search_vars \<times> tape) result" where
  "search cat direction tape =
     (case search_iteration cat direction tape of
        Starved \<Rightarrow> Starved
      | Raise e \<Rightarrow> Raise e
      | Return (v, tape') \<Rightarrow>
          if satisfied v then Return (v, tape') else search cat direction tape')"
  by pat_completeness auto
termination
  by (relation "measure (\<lambda>(cat, direction, tape). length tape)")
     (auto dest: search_iteration_shorter)

text \<open>
  After the loop: the sections are shuffled and handed out with \<^verbatim>\<open>pop()\<close>, from the
  end of the shuffled list; then the set of the start section, the set of the parking
  section and the start zone are chosen.
\<close>

record scheme =
  start_section :: Section
  start_zone :: StartZone
  obstacles :: "(nat \<times> Section) list"
  parking_section :: Section

fun assign_sections ::
  "nat list \<Rightarrow> Section list \<Rightarrow> (nat \<times> Section) list \<Rightarrow> (nat \<times> Section) list result" where
  "assign_sections [] shuffled_sections m = Return m"
| "assign_sections (idx # rest) shuffled_sections m =
     (if shuffled_sections = [] then Raise IndexError
      else assign_sections rest (butlast shuffled_sections)
             (AList.update idx (last shuffled_sections) m))"

definition finish :: "search_vars \<Rightarrow> tape \<Rightarrow> (scheme \<times> tape) result" where
  "finish v tape =
     bind (sample sections 4 tape) (\<lambda>(shuffled_sections, tape1).
     bind (assign_sections (chosen_obstacles_sets_indices v) shuffled_sections [])
       (\<lambda>sections_for_obstacles_sets.
     bind (choice (map fst (forbidden_start_zones v)) tape1)
       (\<lambda>(obstacles_set_in_start_section, tape2).
     (case map_of sections_for_obstacles_sets obstacles_set_in_start_section of
        None \<Rightarrow> Raise KeyError
      | Some start_sec \<Rightarrow>
     bind (choice (obstacles_set_suitable_for_parking_section v) tape2)
       (\<lambda>(obstacles_set_in_parking_section, tape3).
     (case map_of sections_for_obstacles_sets obstacles_set_in_parking_section of
        None \<Rightarrow> Raise KeyError
      | Some parking_sec \<Rightarrow>
     (case map_of (forbidden_start_zones v) obstacles_set_in_start_section of
        None \<Rightarrow> Raise KeyError
      | Some forbidden \<Rightarrow>
     bind (choice (filter (\<lambda>zone. zone \<notin> set forbidden) [Z3, Z4]) tape3)
       (\<lambda>(zone, tape4).
     Return (\<lparr>start_section = start_sec, start_zone = zone,
              obstacles = sections_for_obstacles_sets,
              parking_section = parking_sec\<rparr>, tape4)))))))))"

definition randomize_and_draw_layout_for_obstacle ::
  "catalog \<Rightarrow> Direction \<Rightarrow> tape \<Rightarrow> (scheme \<times> tape) result" where
  "randomize_and_draw_layout_for_obstacle cat direction tape =
     bind (search cat direction tape) (\<lambda>(v, tape1). finish v tape1)"

section \<open>The solver on a store\<close>

text \<open>
  The three tables are module globals and an \<^verbatim>\<open>Obstacle\<close> is a mutable object:
  \<^verbatim>\<open>set_color\<close> assigns its colour. To say what a call leaves behind, the solver is
  written once more with the tables as a store: each function below takes the store,
  reads it where the source reads a table or an object, and returns the store it leaves
  together with its outcome; every step works on the store left by the step before it.
  No \<^verbatim>\<open>Obstacle\<close> is in two places of \<^verbatim>\<open>obstacles_sets\<close>, so an object is named by its
  place \<^verbatim>\<open>obstacles_sets[i][j]\<close>; the names \<^verbatim>\<open>one_obstacles_set\<close> and \<^verbatim>\<open>one_obstacle\<close> of
  the source stand for such places. \<open>set_color_at\<close> is \<^verbatim>\<open>set_color\<close> called on the object
  at a place; the solver has no call of it.
\<close>

definition set_color :: "Obstacle \<Rightarrow> Color \<Rightarrow> Obstacle" where
  "set_color ob c = ob\<lparr>color := c\<rparr>"

definition set_color_at :: "catalog \<Rightarrow> nat \<Rightarrow> nat \<Rightarrow> Color \<Rightarrow> catalog" where
  "set_color_at st i j c =
     st\<lparr>obstacles_sets :=
          (obstacles_sets st)
            [i := (obstacles_sets st ! i)[j := set_color (obstacles_sets st ! i ! j) c]]\<rparr>"

fun bind_st ::
  "catalog \<times> 'a result \<Rightarrow> ('a \<Rightarrow> catalog \<Rightarrow> catalog \<times> 'b result) \<Rightarrow> catalog \<times> 'b result"
  where
  "bind_st (st, Starved) f = (st, Starved)"
| "bind_st (st, Raise e) f = (st, Raise e)"
| "bind_st (st, Return x) f = f x st"

text \<open>
  The body of the loop over the obstacles of a set, on the object at place \<open>j\<close> of set
  \<open>idx\<close>: \<^verbatim>\<open>is_green()\<close>, \<^verbatim>\<open>is_red()\<close> and \<^verbatim>\<open>position\<close> read the object in the store.
\<close>

definition obstacle_body_st ::
  "Direction \<Rightarrow> nat \<Rightarrow> nat \<Rightarrow> search_vars \<Rightarrow> catalog \<Rightarrow> catalog \<times> search_vars result" where
  "obstacle_body_st direction idx j v st =
     (st, obstacle_body direction idx (obstacles_sets st ! idx ! j) v)"

text \<open>
  \<^verbatim>\<open>for one_obstacle in one_obstacles_set\<close>: the iterator of a list holds a position and
  at each step compares it with the length the list has then.
\<close>

function obstacles_loop_st ::
  "Direction \<Rightarrow> nat \<Rightarrow> nat \<Rightarrow> search_vars \<Rightarrow> catalog \<Rightarrow> catalog \<times> search_vars result" where
  "obstacles_loop_st direction idx j v st =
     (if length (obstacles_sets st ! idx) \<le> j then (st, Return v)
      else
        (case obstacle_body_st direction idx j v st of
           (st1, Starved) \<Rightarrow> (st1, Starved)
         | (st1, Raise e) \<Rightarrow> (st1, Raise e)
         | (st1, Return v1) \<Rightarrow> obstacles_loop_st direction idx (Suc j) v1 st1))"
  by pat_completeness auto
termination
  by (relation "measure (\<lambda>(direction, idx, j, v, st). length (obstacles_sets st ! idx) - j)")
     (auto simp: obstacle_body_st_def)

fun sets_loop_st ::
  "Direction \<Rightarrow> nat list \<Rightarrow> search_vars \<Rightarrow> catalog \<Rightarrow> catalog \<times> search_vars result" where
  "sets_loop_st direction [] v st = (st, Return v)"
| "sets_loop_st direction (idx # rest) v st =
     (if length (obstacles_sets st) \<le> idx then (st, Raise IndexError)
      else
        (case obstacles_loop_st direction idx 0
                (v\<lparr>obstacles_amount :=
                      obstacles_amount v + int (length (obstacles_sets st ! idx)),
                    forbidden_start_zones :=
                      AList.update idx [] (forbidden_start_zones v)\<rparr>) st of
           (st1, Starved) \<Rightarrow> (st1, Starved)
         | (st1, Raise e) \<Rightarrow> (st1, Raise e)
         | (st1, Return v1) \<Rightarrow> sets_loop_st direction rest v1 st1))"

definition search_iteration_st ::
  "Direction \<Rightarrow> tape \<Rightarrow> catalog \<Rightarrow> catalog \<times> (search_vars \<times> tape) result" where
  "search_iteration_st direction tape st0 =
     bind_st (st0, choice [GREEN, RED] tape) (\<lambda>(mandatory_set_color, tape1) st.
     bind_st (st, case map_of (mandatory_obstacles_sets st) mandatory_set_color of
                    None \<Rightarrow> Raise KeyError
                  | Some mandatory_obstacles_set \<Rightarrow> Return mandatory_obstacles_set)
       (\<lambda>mandatory_obstacles_set st.
     bind_st (st, choice (required_obstacles_sets st) tape1)
       (\<lambda>(required_obstacles_set, tape2) st.
     bind_st (st, redraw st [required_obstacles_set, mandatory_obstacles_set]
                    mandatory_obstacles_set tape2) (\<lambda>(os1, tape3) st.
     bind_st (st, redraw st [required_obstacles_set, mandatory_obstacles_set, os1]
                    mandatory_obstacles_set tape3) (\<lambda>(os2, tape4) st.
     bind_st (sets_loop_st direction
                [mandatory_obstacles_set, required_obstacles_set, os1, os2]
                (init_vars [mandatory_obstacles_set, required_obstacles_set, os1, os2]) st)
       (\<lambda>v st.
     bind_st (st, delete_loop (length (forbidden_start_zones v))
                    (map fst (forbidden_start_zones v)) (forbidden_start_zones v))
       (\<lambda>fsz st.
     (st, Return (decide (v\<lparr>forbidden_start_zones := fsz\<rparr>), tape4)))))))))"

text \<open>
  The store version of each function leaves the store it was given and has the outcome
  of the function above on that store. These facts come before the loop, whose
  termination rests on them.
\<close>

lemma obstacles_loop_st_eq:
  "j \<le> length (obstacles_sets st ! idx) \<Longrightarrow>
   obstacles_loop_st direction idx j v st =
     (st, obstacles_loop direction idx (drop j (obstacles_sets st ! idx)) v)"
proof (induction direction idx j v st rule: obstacles_loop_st.induct)
  case (1 direction idx j v st)
  let ?set = "obstacles_sets st ! idx"
  show ?case
  proof (cases "length ?set \<le> j")
    case True
    then show ?thesis by (subst obstacles_loop_st.simps) simp
  next
    case False
    then have j: "j < length ?set" by simp
    have d: "drop j ?set = ?set ! j # drop (Suc j) ?set"
      using j by (simp add: Cons_nth_drop_Suc)
    show ?thesis
    proof (cases "obstacle_body direction idx (?set ! j) v")
      case Starved
      with False d show ?thesis
        by (subst obstacles_loop_st.simps) (simp add: obstacle_body_st_def)
    next
      case (Raise e)
      with False d show ?thesis
        by (subst obstacles_loop_st.simps) (simp add: obstacle_body_st_def)
    next
      case (Return v1)
      have b: "obstacle_body_st direction idx j v st = (st, Return v1)"
        using Return by (simp add: obstacle_body_st_def)
      have "obstacles_loop_st direction idx (Suc j) v1 st =
              (st, obstacles_loop direction idx (drop (Suc j) ?set) v1)"
        using "1.IH" [OF False b [symmetric] refl] j by simp
      with False d Return b show ?thesis
        by (subst obstacles_loop_st.simps) simp
    qed
  qed
qed

lemma sets_loop_st_eq:
  "sets_loop_st direction chosen v st = (st, sets_loop st direction chosen v)"
proof (induction chosen arbitrary: v)
  case Nil
  show ?case by simp
next
  case (Cons idx rest)
  let ?v0 = "v\<lparr>obstacles_amount :=
                  obstacles_amount v + int (length (obstacles_sets st ! idx)),
                forbidden_start_zones := AList.update idx [] (forbidden_start_zones v)\<rparr>"
  have o: "obstacles_loop_st direction idx 0 ?v0 st =
             (st, obstacles_loop direction idx (obstacles_sets st ! idx) ?v0)"
    using obstacles_loop_st_eq [of 0 st idx direction ?v0] by simp
  show ?case
  proof (cases "obstacles_loop direction idx (obstacles_sets st ! idx) ?v0")
    case Starved
    with o show ?thesis by simp
  next
    case (Raise e)
    with o show ?thesis by simp
  next
    case (Return v1)
    with o Cons [of v1] show ?thesis by simp
  qed
qed

lemma bind_st_case:
  "bind_st (st, m) f =
     (case m of Starved \<Rightarrow> (st, Starved) | Raise e \<Rightarrow> (st, Raise e) | Return x \<Rightarrow> f x st)"
  by (cases m) simp_all

lemma bind_case:
  "bind m f = (case m of Starved \<Rightarrow> Starved | Raise e \<Rightarrow> Raise e | Return x \<Rightarrow> f x)"
  by (cases m) simp_all

lemma search_iteration_st_eq:
  "search_iteration_st direction tape st = (st, search_iteration st direction tape)"
  unfolding search_iteration_st_def search_iteration_def
  by (simp add: bind_st_case bind_case sets_loop_st_eq
        split: result.split option.split prod.split
        del: redraw.simps sets_loop.simps delete_loop.simps sets_loop_st.simps)

text \<open>The rejection loop on the store.\<close>

function search_st ::
  "Direction \<Rightarrow> tape \<Rightarrow> catalog \<Rightarrow> catalog \<times> (search_vars \<times> tape) result" where
  "search_st direction tape st =
     (case search_iteration_st direction tape st of
        (st1, Starved) \<Rightarrow> (st1, Starved)
      | (st1, Raise e) \<Rightarrow> (st1, Raise e)
      | (st1, Return (v, tape')) \<Rightarrow>
          if satisfied v then (st1, Return (v, tape')) else search_st direction tape' st1)"
  by pat_completeness auto
termination
  by (relation "measure (\<lambda>(direction, tape, st). length tape)")
     (auto simp: search_iteration_st_eq dest: search_iteration_shorter [OF sym])

text \<open>
  After the loop the generator reads no table. A call of the generator, and a sequence
  of calls, each on the store left by the call before it.
\<close>

definition randomize_and_draw_layout_for_obstacle_st ::
  "Direction \<Rightarrow> tape \<Rightarrow> catalog \<Rightarrow> catalog \<times> (scheme \<times> tape) result" where
  "randomize_and_draw_layout_for_obstacle_st direction tape st0 =
     bind_st (search_st direction tape st0) (\<lambda>(v, tape1) st. (st, finish v tape1))"

definition generation_call ::
  "catalog \<Rightarrow> Direction \<times> tape \<Rightarrow> catalog \<times> (scheme \<times> tape) result" where
  "generation_call st request =
     randomize_and_draw_layout_for_obstacle_st (fst request) (snd request) st"

fun generation_calls ::
  "catalog \<Rightarrow> (Direction \<times> tape) list \<Rightarrow> catalog \<times> (scheme \<times> tape) result list" where
  "generation_calls st [] = (st, [])"
| "generation_calls st (request # rest) =
     (let (st1, outcome) = generation_call st request;
          (st2, outcomes) = generation_calls st1 rest
      in (st2, outcome # outcomes))"

section \<open>Vocabulary of the obstacle-round claims\<close>

text \<open>
  The four acceptance rules in the words of the specification, stated on the catalog
  and the chosen indices alone, without the variables of the loop. A zone is forbidden
  for an obstacle set when one of its obstacles stands at an intersection ahead of the
  vehicle for that zone and direction; a set has a usable start zone when \<open>Z3\<close> or \<open>Z4\<close>
  is not forbidden for it; a set is parking-eligible when none of its obstacles stands
  at an intersection forbidden in the parking section.
\<close>

definition intersections_ahead :: "Direction \<Rightarrow> StartZone \<Rightarrow> Intersection list" where
  "intersections_ahead direction zone =
     (case map_of (forbidden_intersections_in_start_zone direction) zone of
        None \<Rightarrow> [] | Some xs \<Rightarrow> xs)"

definition zone_forbidden :: "Direction \<Rightarrow> StartZone \<Rightarrow> Obstacle list \<Rightarrow> bool" where
  "zone_forbidden direction zone one_set =
     list_ex (\<lambda>ob. position ob \<in> set (intersections_ahead direction zone)) one_set"

definition usable_start_zone :: "Direction \<Rightarrow> Obstacle list \<Rightarrow> bool" where
  "usable_start_zone direction one_set =
     list_ex (\<lambda>zone. \<not> zone_forbidden direction zone one_set) [Z3, Z4]"

definition parking_eligible :: "Obstacle list \<Rightarrow> bool" where
  "parking_eligible one_set =
     list_all (\<lambda>ob. position ob \<notin> set forbidden_intersections_in_parking_section) one_set"

definition count_color :: "Color \<Rightarrow> catalog \<Rightarrow> nat list \<Rightarrow> int" where
  "count_color c cat chosen =
     sum_list (map (\<lambda>idx. int (length (filter (\<lambda>ob. color ob = c) (obstacles_sets cat ! idx))))
        chosen)"

definition count_obstacles :: "catalog \<Rightarrow> nat list \<Rightarrow> int" where
  "count_obstacles cat chosen =
     sum_list (map (\<lambda>idx. int (length (obstacles_sets cat ! idx))) chosen)"

definition four_predicates :: "catalog \<Rightarrow> Direction \<Rightarrow> nat list \<Rightarrow> bool" where
  "four_predicates cat direction chosen =
     (abs (count_color GREEN cat chosen - count_color RED cat chosen) \<le> 1 \<and>
      count_obstacles cat chosen > 4 \<and>
      list_ex (\<lambda>idx. usable_start_zone direction (obstacles_sets cat ! idx)) chosen \<and>
      list_ex (\<lambda>idx. parking_eligible (obstacles_sets cat ! idx)) chosen)"

section \<open>Properties of the geometry\<close>

lemma setitem_on_image:
  assumes "0 \<le> a" "a \<le> b" "b \<le> img_rows" "0 \<le> c" "c \<le> d" "d \<le> img_cols"
  shows "setitem img a b c d colour = fill_rect img a c (b - a) (d - c) colour"
  using assms by (intro ext) (simp add: setitem_def fill_rect_def slice_bound_def)

lemma abs_diff_max_min: "max a b - min a b = (abs (b - a))" for a b :: int
  by (simp add: max_def min_def)

lemma on_image_bounds:
  assumes "on_image h1 w1 h2 w2"
  shows "0 \<le> min h1 h2 + border" "max h1 h2 + border \<le> img_rows"
    "0 \<le> min w1 w2 + border" "max w1 w2 + border \<le> img_cols"
    "0 \<le> height - max h1 h2 + border" "height - min h1 h2 + border \<le> img_rows"
    "0 \<le> width - max w1 w2 + border" "width - min w1 w2 + border \<le> img_cols"
    "0 \<le> height - max w1 w2 + border" "height - min w1 w2 + border \<le> img_rows"
    "0 \<le> width - max h1 h2 + border" "width - min h1 h2 + border \<le> img_cols"
  using assms
  unfolding on_image_def img_rows_def img_cols_def height_def width_def border_def
  by linarith+

lemma span_plus: "(max a b + d) - (min a b + d) = abs (b - a)" for a b d :: int
  by (simp add: max_def min_def)

lemma span_minus: "(n - min a b + d) - (n - max a b + d) = abs (b - a)" for a b d n :: int
  by (simp add: max_def min_def)

lemma order_plus: "min a b + d \<le> max a b + d" for a b d :: int
  by (simp add: max_def min_def)

lemma order_minus: "n - max a b + d \<le> n - min a b + d" for a b d n :: int
  by (simp add: max_def min_def)

lemma on_north_fill:
  assumes "on_image h1 w1 h2 w2"
  shows "on_north img h1 w1 h2 w2 c =
           fill_rect img (min h1 h2 + border) (min w1 w2 + border)
             (abs (h2 - h1)) (abs (w2 - w1)) c"
proof -
  note b = on_image_bounds [OF assms]
  show ?thesis
    unfolding on_north_def
    using setitem_on_image [OF b(1) order_plus b(2) b(3) order_plus b(4), of img c]
    by (simp only: span_plus)
qed

lemma on_south_fill:
  assumes "on_image h1 w1 h2 w2"
  shows "on_south img h1 w1 h2 w2 c =
           fill_rect img (height - max h1 h2 + border) (width - max w1 w2 + border)
             (abs (h2 - h1)) (abs (w2 - w1)) c"
proof -
  note b = on_image_bounds [OF assms]
  show ?thesis
    unfolding on_south_def
    using setitem_on_image [OF b(5) order_minus b(6) b(7) order_minus b(8), of img c]
    by (simp only: span_minus)
qed

lemma on_west_fill:
  assumes "on_image h1 w1 h2 w2"
  shows "on_west img h1 w1 h2 w2 c =
           fill_rect img (height - max w1 w2 + border) (min h1 h2 + border)
             (abs (w2 - w1)) (abs (h2 - h1)) c"
proof -
  note b = on_image_bounds [OF assms]
  show ?thesis
    unfolding on_west_def
    using setitem_on_image [OF b(9) order_minus b(10) b(1) order_plus, of img c]
      b(2)
    by (simp only: span_minus span_plus img_rows_def img_cols_def height_def)
qed

lemma on_east_fill:
  assumes "on_image h1 w1 h2 w2"
  shows "on_east img h1 w1 h2 w2 c =
           fill_rect img (min w1 w2 + border) (width - max h1 h2 + border)
             (abs (w2 - w1)) (abs (h2 - h1)) c"
proof -
  note b = on_image_bounds [OF assms]
  show ?thesis
    unfolding on_east_def
    using setitem_on_image [OF b(3) order_plus _ b(11) order_minus b(12), of img c]
      b(4)
    by (simp only: span_minus span_plus img_rows_def img_cols_def height_def)
qed

lemma mirror_south_rect:
  "mirror (fill_rect img (height - max h1 h2 + border) (width - max w1 w2 + border)
             (abs (h2 - h1)) (abs (w2 - w1)) c) =
   fill_rect (mirror img) (min h1 h2 + border) (min w1 w2 + border) (abs (h2 - h1)) (abs (w2 - w1)) c"
  by (intro ext)
     (auto simp: mirror_def fill_rect_def img_rows_def img_cols_def height_def width_def
        border_def max_def min_def)

text \<open>
  Claim C9. A canonical rectangle is given in the coordinates of the field, so its
  corners lie on the image. For every such rectangle and colour, each of the four
  section transforms paints an axis-aligned rectangle with side lengths \<open>\<bar>h2 - h1\<bar>\<close> and
  \<open>\<bar>w2 - w1\<bar>\<close> (rows and columns exchange roles for West and East); the North rectangle
  is the canonical one moved by \<open>border\<close> in both axes, and painting on South and then
  mirroring the image in both axes is painting on North of the mirrored image.
\<close>

theorem section_transforms_preserve_size:
  assumes "on_image h1 w1 h2 w2"
  shows "on_north img h1 w1 h2 w2 c =
           fill_rect img (min h1 h2 + border) (min w1 w2 + border) (abs (h2 - h1)) (abs (w2 - w1)) c \<and>
         on_south img h1 w1 h2 w2 c =
           fill_rect img (height - max h1 h2 + border) (width - max w1 w2 + border)
             (abs (h2 - h1)) (abs (w2 - w1)) c \<and>
         on_west img h1 w1 h2 w2 c =
           fill_rect img (height - max w1 w2 + border) (min h1 h2 + border)
             (abs (w2 - w1)) (abs (h2 - h1)) c \<and>
         on_east img h1 w1 h2 w2 c =
           fill_rect img (min w1 w2 + border) (width - max h1 h2 + border)
             (abs (w2 - w1)) (abs (h2 - h1)) c \<and>
         mirror (on_south img h1 w1 h2 w2 c) = on_north (mirror img) h1 w1 h2 w2 c"
  using assms
  by (simp add: on_north_fill on_south_fill on_west_fill on_east_fill mirror_south_rect)

theorem section_transforms_preserve_size_witness:
  "on_image 350 950 450 1050 \<and>
   on_north (\<lambda>r k. (255, 255, 255)) 350 950 450 1050 (44, 214, 68) =
     fill_rect (\<lambda>r k. (255, 255, 255)) 360 960 100 100 (44, 214, 68) \<and>
   on_south (\<lambda>r k. (255, 255, 255)) 350 950 450 1050 (44, 214, 68) =
     fill_rect (\<lambda>r k. (255, 255, 255)) 2560 1960 100 100 (44, 214, 68) \<and>
   on_west (\<lambda>r k. (255, 255, 255)) 350 950 450 1050 (44, 214, 68) =
     fill_rect (\<lambda>r k. (255, 255, 255)) 1960 360 100 100 (44, 214, 68) \<and>
   on_east (\<lambda>r k. (255, 255, 255)) 350 950 450 1050 (44, 214, 68) =
     fill_rect (\<lambda>r k. (255, 255, 255)) 960 2560 100 100 (44, 214, 68) \<and>
   mirror (on_south (\<lambda>r k. (255, 255, 255)) 350 950 450 1050 (44, 214, 68)) =
     on_north (mirror (\<lambda>r k. (255, 255, 255))) 350 950 450 1050 (44, 214, 68)"
proof -
  have a: "on_image 350 950 450 1050"
    by (simp add: on_image_def border_def height_def width_def)
  have sizes: "min (350::int) 450 + border = 360" "min (950::int) 1050 + border = 960"
    "height - max 350 450 + border = 2560" "width - max 950 1050 + border = 1960"
    "height - max 950 1050 + border = 1960" "width - max 350 450 + border = 2560"
    "abs (450 - 350::int) = 100" "abs (1050 - 950::int) = 100"
    by (simp_all add: border_def height_def width_def)
  note t = section_transforms_preserve_size
      [OF a, of "\<lambda>r k. (255, 255, 255)" "(44, 214, 68)", unfolded sizes]
  show ?thesis
    by (rule conjI [OF a t])
qed

text \<open>
  Off the image the slices are resolved from the other end of the axis or clipped, as
  NumPy does: a rectangle above the outer wall paints nothing on North.
\<close>

lemma on_north_off_image: "on_north img (- 20) 0 (- 5) 10 c = img"
  by (intro ext)
     (auto simp: on_north_def setitem_def slice_bound_def img_rows_def img_cols_def
        height_def width_def border_def)

section \<open>Properties of the random source\<close>

lemma randbelow_Return:
  "randbelow n tape = Return (i, tape') \<Longrightarrow> \<exists>r. tape = r # tape' \<and> i = r mod n"
  by (cases tape) auto

lemma choice_Return:
  assumes "choice seq tape = Return (x, tape')"
  shows "seq \<noteq> [] \<and> (\<exists>r. tape = r # tape' \<and> x = seq ! (r mod length seq))"
  using assms
  by (auto simp: choice_def split: if_splits dest!: bind_Return randbelow_Return)

lemma choice_member: "choice seq tape = Return (x, tape') \<Longrightarrow> x \<in> set seq"
  by (auto dest!: choice_Return)

lemma choice_covers:
  assumes "x \<in> set seq"
  shows "\<exists>r. choice seq (r # tape) = Return (x, tape)"
proof -
  from assms obtain i where "i < length seq" "seq ! i = x"
    by (auto simp: in_set_conv_nth)
  then have "choice seq (i # tape) = Return (x, tape)"
    by (auto simp: choice_def)
  then show ?thesis ..
qed

section \<open>Properties of the open-round generator\<close>

lemma draw_layout_Return:
  assumes "draw_layout direction fixed tape = Return (l, tape')"
  shows "\<exists>config tape3.
           choice (allowed_zones (InnerWall_init config) (starting_section l)) tape3 =
             Return (starting_zone l, tape') \<and>
           inner_walls l = (if fixed then InnerWall_init [] else InnerWall_init config)"
  using assms unfolding draw_layout_def
  by (fastforce dest!: bind_Return)

lemma randint_Cons:
  "a \<le> b \<Longrightarrow> randint a b (r # tape) = Return (a + int (r mod nat (b - a + 1)), tape)"
  by (simp add: randint_def)

lemma choice_Cons:
  "seq \<noteq> [] \<Longrightarrow> choice seq (r # tape) = Return (seq ! (r mod length seq), tape)"
  by (simp add: choice_def)

lemma sample_pool_prefix:
  assumes "sample_pool pool k tape = Return (res, tape')"
  shows "\<exists>pre. tape = pre @ tape' \<and>
           (\<forall>rest. sample_pool pool k (pre @ rest) = Return (res, rest))"
  using assms
proof (induction k arbitrary: pool tape res)
  case 0
  then have "tape = [] @ tape' \<and> (\<forall>rest. sample_pool pool 0 ([] @ rest) = Return (res, rest))"
    by simp
  then show ?case by blast
next
  case (Suc k)
  from Suc.prems obtain j tape1 res1 where
    r: "randbelow (length pool) tape = Return (j, tape1)"
    and s: "sample_pool (butlast (pool[j := last pool])) k tape1 = Return (res1, tape')"
    and e: "res = pool ! j # res1"
    by (auto split: result.splits)
  from randbelow_Return [OF r] obtain d where
    t: "tape = d # tape1" and j: "j = d mod length pool"
    by blast
  from Suc.IH [OF s] obtain pre1 where
    p: "tape1 = pre1 @ tape'"
    and q: "\<forall>rest. sample_pool (butlast (pool[j := last pool])) k (pre1 @ rest) =
              Return (res1, rest)"
    by blast
  have "tape = (d # pre1) @ tape'"
    using t p by simp
  moreover have "\<forall>rest. sample_pool pool (Suc k) ((d # pre1) @ rest) = Return (res, rest)"
    using q j e by simp
  ultimately show ?case by blast
qed

lemma draw_layout_open_Return:
  assumes "draw_layout direction False tape = Return (l, tape')"
  shows "\<exists>pre r.
    tape = pre @ r # tape' \<and>
    allowed_zones (inner_walls l) (starting_section l) \<noteq> [] \<and>
    starting_zone l =
      allowed_zones (inner_walls l) (starting_section l) !
        (r mod length (allowed_zones (inner_walls l) (starting_section l))) \<and>
    (\<forall>r'. draw_layout direction False (pre @ r' # tape') =
       Return (l\<lparr>starting_zone :=
                   allowed_zones (inner_walls l) (starting_section l) !
                     (r' mod length (allowed_zones (inner_walls l) (starting_section l)))\<rparr>,
               tape'))"
proof -
  from assms obtain k tape1 config tape2 sec tape3 zone where
    a: "randint 0 4 tape = Return (k, tape1)"
    and b: "sample sections k tape1 = Return (config, tape2)"
    and c: "choice sections tape2 = Return (sec, tape3)"
    and d: "choice (allowed_zones (InnerWall_init config) sec) tape3 = Return (zone, tape')"
    and l: "l = \<lparr>starting_section = sec, starting_zone = zone,
                 inner_walls = InnerWall_init config, narrow = direction\<rparr>"
    unfolding draw_layout_def by (auto dest!: bind_Return)
  let ?zones = "allowed_zones (InnerWall_init config) sec"
  from a obtain r0 where
    t0: "tape = r0 # tape1" and k: "k = int (r0 mod 5)"
    by (auto simp: randint_def dest!: bind_Return randbelow_Return)
  from b have range: "\<not> (k < 0 \<or> int (length sections) < k)"
    and sp: "sample_pool sections (nat k) tape1 = Return (config, tape2)"
    by (auto simp: sample_def split: if_splits)
  from sample_pool_prefix [OF sp] obtain pre1 where
    t1: "tape1 = pre1 @ tape2"
    and any: "\<forall>rest. sample_pool sections (nat k) (pre1 @ rest) = Return (config, rest)"
    by blast
  from choice_Return [OF c] obtain r1 where
    t2: "tape2 = r1 # tape3" and sec: "sec = sections ! (r1 mod length sections)"
    and ne: "sections \<noteq> []"
    by blast
  from choice_Return [OF d] obtain r where
    t3: "tape3 = r # tape'" and zone: "zone = ?zones ! (r mod length ?zones)"
    and nz: "?zones \<noteq> []"
    by blast
  let ?pre = "r0 # pre1 @ [r1]"
  have t: "tape = ?pre @ r # tape'"
    using t0 t1 t2 t3 by simp
  have run: "draw_layout direction False (?pre @ r' # tape') =
       Return (l\<lparr>starting_zone := ?zones ! (r' mod length ?zones)\<rparr>, tape')" for r'
  proof -
    have 1: "randint 0 4 (r0 # pre1 @ r1 # r' # tape') = Return (k, pre1 @ r1 # r' # tape')"
      using k by (simp add: randint_Cons)
    have 2: "sample sections k (pre1 @ r1 # r' # tape') = Return (config, r1 # r' # tape')"
      using range any by (simp add: sample_def)
    have 3: "choice sections (r1 # r' # tape') = Return (sec, r' # tape')"
      using ne sec by (simp add: choice_Cons)
    have 4: "choice ?zones (r' # tape') = Return (?zones ! (r' mod length ?zones), tape')"
      using nz by (simp add: choice_Cons)
    have "draw_layout direction False (r0 # pre1 @ r1 # r' # tape') =
       Return (\<lparr>starting_section = sec, starting_zone = ?zones ! (r' mod length ?zones),
                inner_walls = InnerWall_init config, narrow = direction\<rparr>, tape')"
      unfolding draw_layout_def
      by (simp only: 1 2 3 4 bind.simps prod.case if_False)
    then show ?thesis
      by (simp add: l)
  qed
  have w: "allowed_zones (inner_walls l) (starting_section l) = ?zones"
    by (simp add: l)
  have "starting_zone l = ?zones ! (r mod length ?zones)"
    using zone by (simp add: l)
  with t nz run show ?thesis
    unfolding w by blast
qed

text \<open>
  Claim C4. In the open round without the fixed centre the start zone is drawn from the
  list \<open>[Z6, Z5, Z4, Z3]\<close> when the drawn inner wall is pulled inward on the start
  section, and from the list of all six zones otherwise: the last draw \<open>r\<close> of the run
  selects the zone at position \<open>r\<close> modulo the length of that list, the same run with
  any other last draw returns the same layout with the zone that draw selects, and so
  every zone of the list, and no other, is returned by such a run. With the wall pulled
  inward the zone is neither \<open>Z1\<close> nor \<open>Z2\<close>.
\<close>

theorem open_round_start_zone:
  assumes "randomize_and_draw_layout_for_open direction tape = Return (l, tape')"
  shows "\<exists>pre r.
    tape = pre @ r # tape' \<and>
    starting_zone l =
      (if on_side (inner_walls l) (starting_section l)
       then [Z6, Z5, Z4, Z3] ! (r mod 4) else [Z1, Z2, Z3, Z4, Z5, Z6] ! (r mod 6)) \<and>
    (\<forall>r'. randomize_and_draw_layout_for_open direction (pre @ r' # tape') =
       Return (l\<lparr>starting_zone :=
                   (if on_side (inner_walls l) (starting_section l)
                    then [Z6, Z5, Z4, Z3] ! (r' mod 4)
                    else [Z1, Z2, Z3, Z4, Z5, Z6] ! (r' mod 6))\<rparr>, tape')) \<and>
    (\<forall>zone \<in> set (if on_side (inner_walls l) (starting_section l)
                    then [Z6, Z5, Z4, Z3] else [Z1, Z2, Z3, Z4, Z5, Z6]).
       \<exists>r'. randomize_and_draw_layout_for_open direction (pre @ r' # tape') =
              Return (l\<lparr>starting_zone := zone\<rparr>, tape')) \<and>
    starting_zone l \<in> set (if on_side (inner_walls l) (starting_section l)
                            then [Z6, Z5, Z4, Z3] else [Z1, Z2, Z3, Z4, Z5, Z6]) \<and>
    (on_side (inner_walls l) (starting_section l) \<longrightarrow>
       starting_zone l \<noteq> Z1 \<and> starting_zone l \<noteq> Z2)"
proof -
  let ?zones = "allowed_zones (inner_walls l) (starting_section l)"
  let ?lit = "if on_side (inner_walls l) (starting_section l)
              then [Z6, Z5, Z4, Z3] else [Z1, Z2, Z3, Z4, Z5, Z6]"
  have lit: "?zones = ?lit"
    by (simp add: allowed_zones_def list_StartZone_def)
  have nth: "?lit ! (d mod length ?lit) =
      (if on_side (inner_walls l) (starting_section l)
       then [Z6, Z5, Z4, Z3] ! (d mod 4) else [Z1, Z2, Z3, Z4, Z5, Z6] ! (d mod 6))" for d
    by simp
  from draw_layout_open_Return [OF assms [unfolded randomize_and_draw_layout_for_open_def]]
  obtain pre r where
    t: "tape = pre @ r # tape'"
    and ne: "?lit \<noteq> []"
    and z: "starting_zone l = ?lit ! (r mod length ?lit)"
    and run: "\<forall>r'. randomize_and_draw_layout_for_open direction (pre @ r' # tape') =
       Return (l\<lparr>starting_zone := ?lit ! (r' mod length ?lit)\<rparr>, tape')"
    unfolding lit randomize_and_draw_layout_for_open_def by blast
  have mem: "starting_zone l \<in> set ?lit"
    unfolding z using ne by (intro nth_mem) simp
  have reach: "\<exists>r'. randomize_and_draw_layout_for_open direction (pre @ r' # tape') =
              Return (l\<lparr>starting_zone := zone\<rparr>, tape')" if "zone \<in> set ?lit" for zone
  proof -
    from that obtain i where i: "i < length ?lit" "?lit ! i = zone"
      by (auto simp only: in_set_conv_nth)
    from run have "randomize_and_draw_layout_for_open direction (pre @ i # tape') =
       Return (l\<lparr>starting_zone := ?lit ! (i mod length ?lit)\<rparr>, tape')"
      by blast
    with i show ?thesis by (auto simp only: mod_less)
  qed
  have no: "on_side (inner_walls l) (starting_section l) \<longrightarrow>
       starting_zone l \<noteq> Z1 \<and> starting_zone l \<noteq> Z2"
    using mem by auto
  from t z [unfolded nth] run [unfolded nth] reach mem no show ?thesis
    by blast
qed

theorem open_round_start_zone_witness:
  "randomize_and_draw_layout_for_open CW [0, 0, 0] =
     Return (\<lparr>starting_section = NORTH, starting_zone = Z1,
              inner_walls = InnerWall_init [], narrow = CW\<rparr>, []) \<and>
   \<not> on_side (InnerWall_init []) NORTH \<and>
   randomize_and_draw_layout_for_open CW [0, 0, 1] =
     Return (\<lparr>starting_section = NORTH, starting_zone = Z2,
              inner_walls = InnerWall_init [], narrow = CW\<rparr>, []) \<and>
   randomize_and_draw_layout_for_open CW [2, 0, 0, 0, 5] =
     Return (\<lparr>starting_section = NORTH, starting_zone = Z5,
              inner_walls = InnerWall_init [NORTH, EAST], narrow = CW\<rparr>, []) \<and>
   on_side (InnerWall_init [NORTH, EAST]) NORTH \<and>
   randomize_and_draw_layout_for_open CW [2, 0, 0, 0, 4] =
     Return (\<lparr>starting_section = NORTH, starting_zone = Z6,
              inner_walls = InnerWall_init [NORTH, EAST], narrow = CW\<rparr>, [])"
proof -
  let ?open = "\<lparr>starting_section = NORTH, starting_zone = Z1,
              inner_walls = InnerWall_init [], narrow = CW\<rparr>"
  let ?walled = "\<lparr>starting_section = NORTH, starting_zone = Z5,
              inner_walls = InnerWall_init [NORTH, EAST], narrow = CW\<rparr>"
  have run1: "randomize_and_draw_layout_for_open CW [0, 0, 0] = Return (?open, [])"
    by code_simp
  have run2: "randomize_and_draw_layout_for_open CW [2, 0, 0, 0, 5] = Return (?walled, [])"
    by code_simp
  have side1: "\<not> on_side (InnerWall_init []) NORTH"
    by (simp add: InnerWall_init_def)
  have side2: "on_side (InnerWall_init [NORTH, EAST]) NORTH"
    by (simp add: InnerWall_init_def)
  from open_round_start_zone [OF run1] obtain pre r where
    t: "[0, 0, 0] = pre @ [r]"
    and any: "\<forall>r'. randomize_and_draw_layout_for_open CW (pre @ [r']) =
       Return (?open\<lparr>starting_zone := [Z1, Z2, Z3, Z4, Z5, Z6] ! (r' mod 6)\<rparr>, [])"
    using side1 by auto
  have "[0, 0, 0 :: nat] = [0, 0] @ [0]" by simp
  with t have pre: "pre = [0, 0]" by (simp only: append1_eq_conv)
  from any [rule_format, of 1] have
    a: "randomize_and_draw_layout_for_open CW [0, 0, 1] =
     Return (\<lparr>starting_section = NORTH, starting_zone = Z2,
              inner_walls = InnerWall_init [], narrow = CW\<rparr>, [])"
    unfolding pre by simp
  from open_round_start_zone [OF run2] obtain pre2 r2 where
    t2: "[2, 0, 0, 0, 5] = pre2 @ [r2]"
    and any2: "\<forall>r'. randomize_and_draw_layout_for_open CW (pre2 @ [r']) =
       Return (?walled\<lparr>starting_zone := [Z6, Z5, Z4, Z3] ! (r' mod 4)\<rparr>, [])"
    using side2 by auto
  have "[2, 0, 0, 0, 5 :: nat] = [2, 0, 0, 0] @ [5]" by simp
  with t2 have pre2: "pre2 = [2, 0, 0, 0]" by (simp only: append1_eq_conv)
  from any2 [rule_format, of 4] have
    b: "randomize_and_draw_layout_for_open CW [2, 0, 0, 0, 4] =
     Return (\<lparr>starting_section = NORTH, starting_zone = Z6,
              inner_walls = InnerWall_init [NORTH, EAST], narrow = CW\<rparr>, [])"
    unfolding pre2 by simp
  from run1 side1 a run2 side2 b show ?thesis
    by (intro conjI)
qed

lemma fixed_center_walls_default:
  "randomize_and_draw_layout_fixed direction tape = Return (l, tape') \<Longrightarrow>
   inner_walls l = InnerWall_init []"
  unfolding randomize_and_draw_layout_fixed_def
  by (auto dest!: draw_layout_Return)

text \<open>
  Claim C3. With the fixed centre the inner walls that are drawn are the default ones,
  whatever was drawn at random. The start zone, however, is chosen before the random
  walls are replaced: on a tape whose first draw pulls all four walls inward, the zone
  comes from \<open>[Z6, Z5, Z4, Z3]\<close> whatever the last draw \<open>z\<close> is, and is never \<open>Z1\<close> or \<open>Z2\<close>.
\<close>

theorem fixed_center_restricts_start_zone:
  "randomize_and_draw_layout_fixed CW [4, 0, 0, 0, 0, 0, z] =
     Return (\<lparr>starting_section = NORTH, starting_zone = [Z6, Z5, Z4, Z3] ! (z mod 4),
              inner_walls = InnerWall_init [], narrow = CW\<rparr>, []) \<and>
   [Z6, Z5, Z4, Z3] ! (z mod 4) \<noteq> Z1 \<and> [Z6, Z5, Z4, Z3] ! (z mod 4) \<noteq> Z2"
proof -
  have k: "randint 0 4 [4, 0, 0, 0, 0, 0, z] = Return (4, [0, 0, 0, 0, 0, z])"
    by (simp add: randint_def)
  have four: "nat 4 = Suc (Suc (Suc (Suc 0)))"
    by simp
  have p: "sample_pool [NORTH, WEST, SOUTH, EAST] (Suc (Suc (Suc (Suc 0))))
             [0, 0, 0, 0, 0, z] = Return ([NORTH, EAST, SOUTH, WEST], [0, z])"
    by simp
  have s: "sample sections 4 [0, 0, 0, 0, 0, z] =
             Return ([NORTH, EAST, SOUTH, WEST], [0, z])"
    unfolding sample_def sections_def four using p by simp
  have c: "choice sections [0, z] = Return (NORTH, [z])"
    by (simp add: choice_def sections_def)
  have a: "allowed_zones (InnerWall_init [NORTH, EAST, SOUTH, WEST]) NORTH =
             [Z6, Z5, Z4, Z3]"
    by (simp add: allowed_zones_def InnerWall_init_def)
  have zc: "choice [Z6, Z5, Z4, Z3] [z] = Return ([Z6, Z5, Z4, Z3] ! (z mod 4), [])"
    by (simp add: choice_def)
  have "z mod 4 = 0 \<or> z mod 4 = 1 \<or> z mod 4 = 2 \<or> z mod 4 = 3"
    by presburger
  then have ne: "[Z6, Z5, Z4, Z3] ! (z mod 4) \<noteq> Z1 \<and> [Z6, Z5, Z4, Z3] ! (z mod 4) \<noteq> Z2"
    by auto
  have "randomize_and_draw_layout_fixed CW [4, 0, 0, 0, 0, 0, z] =
     Return (\<lparr>starting_section = NORTH, starting_zone = [Z6, Z5, Z4, Z3] ! (z mod 4),
              inner_walls = InnerWall_init [], narrow = CW\<rparr>, [])"
    unfolding randomize_and_draw_layout_fixed_def draw_layout_def
    by (simp only: k s c a zc bind.simps prod.case if_True)
  with ne show ?thesis by simp
qed

section \<open>Properties of the loop body\<close>

lemma map_fst_map_entry: "map fst (AList.map_entry k f xs) = map fst xs"
  by (induction xs) auto

lemma zones_loop_keys: "map fst (zones_loop zm ob idx fsz) = map fst fsz"
  by (induction zm ob idx fsz rule: zones_loop.induct) (auto simp: map_fst_map_entry)

lemma zones_loop_other:
  "k \<noteq> idx \<Longrightarrow> map_of (zones_loop zm ob idx fsz) k = map_of fsz k"
  by (induction zm ob idx fsz rule: zones_loop.induct) (auto simp: map_of_map_entry)

lemma zones_loop_entry:
  assumes "map_of fsz idx = Some zs"
  shows "\<exists>zs'. map_of (zones_loop zm ob idx fsz) idx = Some zs' \<and>
           set zs' = set zs \<union> {z. \<exists>xs. (z, xs) \<in> set zm \<and> position ob \<in> set xs} \<and>
           (distinct zs \<longrightarrow> distinct zs')"
  using assms
proof (induction zm arbitrary: fsz zs)
  case Nil
  then show ?case by simp
next
  case (Cons a rest)
  obtain zone xs where a: "a = (zone, xs)" by (cases a)
  show ?case
  proof (cases "position ob \<in> set xs")
    case False
    from Cons.IH [OF Cons.prems] False a show ?thesis by fastforce
  next
    case True
    have e: "map_of (AList.map_entry idx (List.insert zone) fsz) idx =
               Some (List.insert zone zs)"
      using Cons.prems by (simp add: map_of_map_entry)
    from Cons.IH [OF e] obtain zs' where
      z: "map_of (zones_loop rest ob idx (AList.map_entry idx (List.insert zone) fsz)) idx =
            Some zs'"
        "set zs' = set (List.insert zone zs) \<union>
           {z. \<exists>xs. (z, xs) \<in> set rest \<and> position ob \<in> set xs}"
        "distinct (List.insert zone zs) \<longrightarrow> distinct zs'"
      by blast
    have "set zs' = set zs \<union> {z. \<exists>xs. (z, xs) \<in> set (a # rest) \<and> position ob \<in> set xs}"
      using z(2) True a by auto
    moreover have "distinct zs \<longrightarrow> distinct zs'"
      using z(3) by (simp add: distinct_insert)
    ultimately show ?thesis
      using z(1) True a by simp
  qed
qed

lemma ahead_iff:
  "(\<exists>xs. (z, xs) \<in> set (forbidden_intersections_in_start_zone direction) \<and> p \<in> set xs) =
   (p \<in> set (intersections_ahead direction z))"
  by (cases direction; cases z) (auto simp: intersections_ahead_def)

lemma ahead_zones: "p \<in> set (intersections_ahead direction z) \<Longrightarrow> z = Z3 \<or> z = Z4"
  by (cases direction; cases z) (auto simp: intersections_ahead_def)

lemma parking_loop_set:
  "set (parking_loop xs ob idx conf) =
     set conf \<union> (if position ob \<in> set xs then {idx} else {})"
  by (induction xs ob idx conf rule: parking_loop.induct) auto

lemma tally_color_Return:
  assumes "tally_color ob v = Return v'"
  shows "(color ob = GREEN \<or> color ob = RED) \<and>
         v' = v\<lparr>green_amount := green_amount v + (if color ob = GREEN then 1 else 0),
                red_amount := red_amount v + (if color ob = RED then 1 else 0)\<rparr>"
  using assms by (auto simp: tally_color_def is_green_def is_red_def split: if_splits)

lemma tally_color_Raise:
  "(tally_color ob v = Raise e) = (e = ValueError \<and> color ob \<noteq> GREEN \<and> color ob \<noteq> RED)"
  by (auto simp: tally_color_def is_green_def is_red_def)

lemma tally_color_not_Starved: "tally_color ob v \<noteq> Starved"
  by (simp add: tally_color_def)

lemma obstacle_body_Return:
  assumes "obstacle_body direction idx ob v = Return v'"
  shows "(color ob = GREEN \<or> color ob = RED) \<and>
    chosen_obstacles_sets_indices v' = chosen_obstacles_sets_indices v \<and>
    obstacles_amount v' = obstacles_amount v \<and>
    green_amount v' = green_amount v + (if color ob = GREEN then 1 else 0) \<and>
    red_amount v' = red_amount v + (if color ob = RED then 1 else 0) \<and>
    forbidden_start_zones v' =
      zones_loop (forbidden_intersections_in_start_zone direction) ob idx
        (forbidden_start_zones v) \<and>
    obstacles_set_conflicting_with_parking_section v' =
      parking_loop forbidden_intersections_in_parking_section ob idx
        (obstacles_set_conflicting_with_parking_section v)"
  using assms unfolding obstacle_body_def
  by (auto dest!: bind_Return tally_color_Return)

lemma obstacle_body_Raise:
  "(obstacle_body direction idx ob v = Raise e) =
   (e = ValueError \<and> color ob \<noteq> GREEN \<and> color ob \<noteq> RED)"
  by (auto simp: obstacle_body_def tally_color_def is_green_def is_red_def)

lemma obstacle_body_not_Starved: "obstacle_body direction idx ob v \<noteq> Starved"
  by (auto simp: obstacle_body_def tally_color_def)

lemma obstacles_loop_Return:
  assumes "obstacles_loop direction idx obs v = Return v'"
  shows "list_all (\<lambda>ob. color ob = GREEN \<or> color ob = RED) obs \<and>
    chosen_obstacles_sets_indices v' = chosen_obstacles_sets_indices v \<and>
    obstacles_amount v' = obstacles_amount v \<and>
    green_amount v' =
      green_amount v + int (length (filter (\<lambda>ob. color ob = GREEN) obs)) \<and>
    red_amount v' = red_amount v + int (length (filter (\<lambda>ob. color ob = RED) obs)) \<and>
    map fst (forbidden_start_zones v') = map fst (forbidden_start_zones v) \<and>
    (\<forall>k. k \<noteq> idx \<longrightarrow>
       map_of (forbidden_start_zones v') k = map_of (forbidden_start_zones v) k) \<and>
    set (obstacles_set_conflicting_with_parking_section v') =
      set (obstacles_set_conflicting_with_parking_section v) \<union>
      (if parking_eligible obs then {} else {idx})"
  using assms
proof (induction obs arbitrary: v)
  case Nil
  then show ?case by (simp add: parking_eligible_def)
next
  case (Cons ob rest)
  from Cons.prems obtain v1 where
    b: "obstacle_body direction idx ob v = Return v1"
    and r: "obstacles_loop direction idx rest v1 = Return v'"
    by (auto split: result.splits)
  note B = obstacle_body_Return [OF b]
  note R = Cons.IH [OF r]
  have p: "parking_eligible (ob # rest) =
             (position ob \<notin> set forbidden_intersections_in_parking_section \<and>
              parking_eligible rest)"
    by (simp add: parking_eligible_def)
  have c: "set (obstacles_set_conflicting_with_parking_section v') =
      set (obstacles_set_conflicting_with_parking_section v) \<union>
      (if parking_eligible (ob # rest) then {} else {idx})"
    using B R unfolding p by (auto simp: parking_loop_set)
  have k: "\<forall>k. k \<noteq> idx \<longrightarrow>
       map_of (forbidden_start_zones v') k = map_of (forbidden_start_zones v) k"
    using B R by (simp add: zones_loop_other)
  have f: "map fst (forbidden_start_zones v') = map fst (forbidden_start_zones v)"
    using B R by (simp add: zones_loop_keys)
  have n: "green_amount v' =
      green_amount v + int (length (filter (\<lambda>ob. color ob = GREEN) (ob # rest)))"
    "red_amount v' =
      red_amount v + int (length (filter (\<lambda>ob. color ob = RED) (ob # rest)))"
    using B R by auto
  have o: "list_all (\<lambda>ob. color ob = GREEN \<or> color ob = RED) (ob # rest)"
    "chosen_obstacles_sets_indices v' = chosen_obstacles_sets_indices v"
    "obstacles_amount v' = obstacles_amount v"
    using B R by auto
  from c k f n o show ?case by blast
qed

lemma zone_forbidden_Cons:
  "zone_forbidden direction z (ob # rest) =
     (position ob \<in> set (intersections_ahead direction z) \<or> zone_forbidden direction z rest)"
  by (simp add: zone_forbidden_def)

lemma obstacles_loop_entry:
  assumes "obstacles_loop direction idx obs v = Return v'"
    and "map_of (forbidden_start_zones v) idx = Some zs"
  shows "\<exists>zs'. map_of (forbidden_start_zones v') idx = Some zs' \<and>
           set zs' = set zs \<union> {z. zone_forbidden direction z obs} \<and>
           (distinct zs \<longrightarrow> distinct zs')"
  using assms
proof (induction obs arbitrary: v zs)
  case Nil
  then show ?case by (simp add: zone_forbidden_def)
next
  case (Cons ob rest)
  from Cons.prems obtain v1 where
    b: "obstacle_body direction idx ob v = Return v1"
    and r: "obstacles_loop direction idx rest v1 = Return v'"
    by (auto split: result.splits)
  from obstacle_body_Return [OF b] have
    f: "forbidden_start_zones v1 =
          zones_loop (forbidden_intersections_in_start_zone direction) ob idx
            (forbidden_start_zones v)"
    by simp
  from zones_loop_entry [OF Cons.prems(2), of "forbidden_intersections_in_start_zone direction" ob]
  obtain zs1 where
    z1: "map_of (forbidden_start_zones v1) idx = Some zs1"
      "set zs1 = set zs \<union> {z. position ob \<in> set (intersections_ahead direction z)}"
      "distinct zs \<longrightarrow> distinct zs1"
    unfolding f ahead_iff by blast
  from Cons.IH [OF r z1(1)] obtain zs' where
    z': "map_of (forbidden_start_zones v') idx = Some zs'"
      "set zs' = set zs1 \<union> {z. zone_forbidden direction z rest}"
      "distinct zs1 \<longrightarrow> distinct zs'"
    by blast
  have "set zs' = set zs \<union> {z. zone_forbidden direction z (ob # rest)}"
    unfolding z'(2) z1(2) zone_forbidden_Cons by blast
  with z'(1) z'(3) z1(3) show ?case by blast
qed

lemma obstacles_loop_Raise:
  assumes "obstacles_loop direction idx obs v = Raise e"
  shows "e = ValueError \<and> \<not> list_all (\<lambda>ob. color ob = GREEN \<or> color ob = RED) obs"
  using assms
proof (induction obs arbitrary: v)
  case Nil
  then show ?case by simp
next
  case (Cons ob rest)
  show ?case
  proof (cases "obstacle_body direction idx ob v")
    case Starved
    then show ?thesis by (simp add: obstacle_body_not_Starved)
  next
    case (Raise e')
    with Cons.prems have "e' = e" by simp
    with Raise show ?thesis by (simp add: obstacle_body_Raise)
  next
    case (Return v1)
    with Cons.prems have "obstacles_loop direction idx rest v1 = Raise e" by simp
    from Cons.IH [OF this] show ?thesis by simp
  qed
qed

lemma obstacles_loop_total:
  assumes "list_all (\<lambda>ob. color ob = GREEN \<or> color ob = RED) obs"
  shows "\<exists>v'. obstacles_loop direction idx obs v = Return v'"
  using assms
proof (induction obs arbitrary: v)
  case Nil
  then show ?case by simp
next
  case (Cons ob rest)
  then have c: "color ob = GREEN \<or> color ob = RED" by simp
  obtain v1 where b: "obstacle_body direction idx ob v = Return v1"
    using c obstacle_body_Raise [of direction idx ob v]
      obstacle_body_not_Starved [of direction idx ob v]
    by (cases "obstacle_body direction idx ob v") auto
  from Cons have "\<exists>v'. obstacles_loop direction idx rest v1 = Return v'" by simp
  with b show ?case by simp
qed

lemma sets_loop_Cons_Return:
  assumes "sets_loop cat direction (idx # rest) v = Return v'"
  shows "idx < length (obstacles_sets cat) \<and>
    (\<exists>v1. obstacles_loop direction idx (obstacles_sets cat ! idx)
             (v\<lparr>obstacles_amount :=
                   obstacles_amount v + int (length (obstacles_sets cat ! idx)),
                 forbidden_start_zones :=
                   AList.update idx [] (forbidden_start_zones v)\<rparr>) = Return v1 \<and>
          sets_loop cat direction rest v1 = Return v')"
  using assms by (auto split: if_splits result.splits)

lemma sets_loop_Return:
  assumes "sets_loop cat direction chosen v = Return v'"
  shows "list_all (\<lambda>idx. idx < length (obstacles_sets cat) \<and>
             list_all (\<lambda>ob. color ob = GREEN \<or> color ob = RED) (obstacles_sets cat ! idx))
           chosen \<and>
    chosen_obstacles_sets_indices v' = chosen_obstacles_sets_indices v \<and>
    obstacles_amount v' = obstacles_amount v + count_obstacles cat chosen \<and>
    green_amount v' = green_amount v + count_color GREEN cat chosen \<and>
    red_amount v' = red_amount v + count_color RED cat chosen \<and>
    set (obstacles_set_conflicting_with_parking_section v') =
      set (obstacles_set_conflicting_with_parking_section v) \<union>
      {idx \<in> set chosen. \<not> parking_eligible (obstacles_sets cat ! idx)}"
  using assms
proof (induction chosen arbitrary: v)
  case Nil
  then show ?case by (simp add: count_obstacles_def count_color_def)
next
  case (Cons idx rest)
  from sets_loop_Cons_Return [OF Cons.prems] obtain v1 where
    i: "idx < length (obstacles_sets cat)"
    and o: "obstacles_loop direction idx (obstacles_sets cat ! idx)
             (v\<lparr>obstacles_amount :=
                   obstacles_amount v + int (length (obstacles_sets cat ! idx)),
                 forbidden_start_zones :=
                   AList.update idx [] (forbidden_start_zones v)\<rparr>) = Return v1"
    and r: "sets_loop cat direction rest v1 = Return v'"
    by blast
  note O = obstacles_loop_Return [OF o]
  note R = Cons.IH [OF r]
  have a: "list_all (\<lambda>idx. idx < length (obstacles_sets cat) \<and>
             list_all (\<lambda>ob. color ob = GREEN \<or> color ob = RED) (obstacles_sets cat ! idx))
           (idx # rest)"
    using i O R by simp
  have b: "chosen_obstacles_sets_indices v' = chosen_obstacles_sets_indices v"
    using O R by simp
  have c: "obstacles_amount v' = obstacles_amount v + count_obstacles cat (idx # rest)"
    using O R by (simp add: count_obstacles_def)
  have d: "green_amount v' = green_amount v + count_color GREEN cat (idx # rest)"
    "red_amount v' = red_amount v + count_color RED cat (idx # rest)"
    using O R by (simp_all add: count_color_def)
  have e: "set (obstacles_set_conflicting_with_parking_section v') =
      set (obstacles_set_conflicting_with_parking_section v) \<union>
      {k \<in> set (idx # rest). \<not> parking_eligible (obstacles_sets cat ! k)}"
    using O R by auto
  from a b c d e show ?case by blast
qed

lemma update_new_key:
  "k \<notin> set (map fst al) \<Longrightarrow> AList.update k v al = al @ [(k, v)]"
  by (induction al) auto

lemma sets_loop_zones:
  assumes "sets_loop cat direction chosen v = Return v'"
    and "distinct chosen"
    and "set chosen \<inter> set (map fst (forbidden_start_zones v)) = {}"
  shows "map fst (forbidden_start_zones v') = map fst (forbidden_start_zones v) @ chosen \<and>
    (\<forall>k. k \<notin> set chosen \<longrightarrow>
       map_of (forbidden_start_zones v') k = map_of (forbidden_start_zones v) k) \<and>
    (\<forall>idx \<in> set chosen. \<exists>zs. map_of (forbidden_start_zones v') idx = Some zs \<and>
       distinct zs \<and> set zs = {z. zone_forbidden direction z (obstacles_sets cat ! idx)})"
  using assms
proof (induction chosen arbitrary: v)
  case Nil
  then show ?case by simp
next
  case (Cons idx rest)
  let ?v0 = "v\<lparr>obstacles_amount :=
                   obstacles_amount v + int (length (obstacles_sets cat ! idx)),
                 forbidden_start_zones :=
                   AList.update idx [] (forbidden_start_zones v)\<rparr>"
  from sets_loop_Cons_Return [OF Cons.prems(1)] obtain v1 where
    o: "obstacles_loop direction idx (obstacles_sets cat ! idx) ?v0 = Return v1"
    and r: "sets_loop cat direction rest v1 = Return v'"
    by blast
  have new: "idx \<notin> set (map fst (forbidden_start_zones v))"
    using Cons.prems(3) by auto
  have f0: "forbidden_start_zones ?v0 = forbidden_start_zones v @ [(idx, [])]"
    using new by (simp add: update_new_key)
  have m0: "map_of (forbidden_start_zones ?v0) idx = Some []"
    by (simp add: update_conv')
  note O = obstacles_loop_Return [OF o]
  from O have keys1: "map fst (forbidden_start_zones v1) =
      map fst (forbidden_start_zones v) @ [idx]"
    by (simp add: f0)
  from O have other1: "k \<noteq> idx \<Longrightarrow>
      map_of (forbidden_start_zones v1) k = map_of (forbidden_start_zones v) k" for k
    by (simp add: update_conv')
  from obstacles_loop_entry [OF o m0] obtain zs where
    zs: "map_of (forbidden_start_zones v1) idx = Some zs"
      "set zs = {z. zone_forbidden direction z (obstacles_sets cat ! idx)}"
      "distinct zs"
    by auto
  have d: "distinct rest" and ni: "idx \<notin> set rest"
    using Cons.prems(2) by simp_all
  have disj: "set rest \<inter> set (map fst (forbidden_start_zones v1)) = {}"
    using Cons.prems(3) ni unfolding keys1 by auto
  note R = Cons.IH [OF r d disj]
  have a: "map fst (forbidden_start_zones v') =
      map fst (forbidden_start_zones v) @ idx # rest"
    using R keys1 by simp
  have b: "\<forall>k. k \<notin> set (idx # rest) \<longrightarrow>
       map_of (forbidden_start_zones v') k = map_of (forbidden_start_zones v) k"
    using R other1 by simp
  have here: "map_of (forbidden_start_zones v') idx = Some zs"
    using R ni zs(1) by simp
  have c: "\<forall>k \<in> set (idx # rest). \<exists>zs. map_of (forbidden_start_zones v') k = Some zs \<and>
       distinct zs \<and> set zs = {z. zone_forbidden direction z (obstacles_sets cat ! k)}"
    using R here zs by auto
  from a b c show ?case by blast
qed

lemma sets_loop_Raise:
  assumes "sets_loop cat direction chosen v = Raise e"
  shows "(e = IndexError \<and> \<not> list_all (\<lambda>idx. idx < length (obstacles_sets cat)) chosen) \<or>
    (e = ValueError \<and>
     list_ex (\<lambda>idx. idx < length (obstacles_sets cat) \<and>
        \<not> list_all (\<lambda>ob. color ob = GREEN \<or> color ob = RED) (obstacles_sets cat ! idx))
       chosen)"
  using assms
proof (induction chosen arbitrary: v)
  case Nil
  then show ?case by simp
next
  case (Cons idx rest)
  show ?case
  proof (cases "length (obstacles_sets cat) \<le> idx")
    case True
    with Cons.prems show ?thesis by simp
  next
    case False
    let ?v0 = "v\<lparr>obstacles_amount :=
                   obstacles_amount v + int (length (obstacles_sets cat ! idx)),
                 forbidden_start_zones :=
                   AList.update idx [] (forbidden_start_zones v)\<rparr>"
    show ?thesis
    proof (cases "obstacles_loop direction idx (obstacles_sets cat ! idx) ?v0")
      case Starved
      with Cons.prems False show ?thesis by simp
    next
      case (Raise e')
      with Cons.prems False have "e' = e" by simp
      with Raise obstacles_loop_Raise [of direction idx "obstacles_sets cat ! idx" ?v0 e]
        False show ?thesis by simp
    next
      case (Return v1)
      with Cons.prems False have "sets_loop cat direction rest v1 = Raise e" by simp
      from Cons.IH [OF this] show ?thesis by auto
    qed
  qed
qed

lemma sets_loop_not_Starved: "sets_loop cat direction chosen v \<noteq> Starved"
proof (induction chosen arbitrary: v)
  case Nil
  show ?case by simp
next
  case (Cons idx rest)
  let ?v0 = "v\<lparr>obstacles_amount :=
                   obstacles_amount v + int (length (obstacles_sets cat ! idx)),
                 forbidden_start_zones :=
                   AList.update idx [] (forbidden_start_zones v)\<rparr>"
  have "obstacles_loop direction idx obs w \<noteq> Starved" for obs w
    by (induction obs arbitrary: w)
       (auto simp: obstacle_body_not_Starved split: result.splits)
  with Cons show ?case
    by (auto split: result.splits)
qed

lemma sets_loop_total:
  assumes "list_all (\<lambda>idx. idx < length (obstacles_sets cat) \<and>
             list_all (\<lambda>ob. color ob = GREEN \<or> color ob = RED) (obstacles_sets cat ! idx))
           chosen"
  shows "\<exists>v'. sets_loop cat direction chosen v = Return v'"
proof (cases "sets_loop cat direction chosen v")
  case Starved
  then show ?thesis by (simp add: sets_loop_not_Starved)
next
  case (Raise e)
  from sets_loop_Raise [OF this] assms show ?thesis
    by (auto simp: list_all_iff list_ex_iff)
next
  case (Return v')
  then show ?thesis by simp
qed

section \<open>Properties of the deleting loop and of the redraw loops\<close>

lemma delete_shorter:
  assumes "map_of al k = Some v"
  shows "length (AList.delete k al) < length al"
proof -
  from assms have "(k, v) \<in> set al" by (rule map_of_SomeD)
  then show ?thesis
    unfolding AList.delete_eq by (rule length_filter_less) simp
qed

lemma delete_loop_Return:
  assumes "delete_loop used keys fsz = Return fsz'"
  shows "fsz' = fsz \<and> length fsz = used \<and>
         (\<forall>k \<in> set keys. \<exists>zs. map_of fsz k = Some zs \<and> length zs \<noteq> 2)"
  using assms
proof (induction keys arbitrary: fsz)
  case Nil
  then show ?case by (auto split: if_splits)
next
  case (Cons idx rest)
  from Cons.prems have len: "length fsz = used"
    by (auto split: if_splits)
  from Cons.prems len obtain zones where
    z: "map_of fsz idx = Some zones"
    and r: "delete_loop used rest
              (if length zones = 2 then AList.delete idx fsz else fsz) = Return fsz'"
    by (auto split: option.splits)
  from Cons.IH [OF r] have
    same: "fsz' = (if length zones = 2 then AList.delete idx fsz else fsz)"
    and len': "length (if length zones = 2 then AList.delete idx fsz else fsz) = used"
    and rest: "\<forall>k \<in> set rest. \<exists>zs.
        map_of (if length zones = 2 then AList.delete idx fsz else fsz) k = Some zs \<and>
        length zs \<noteq> 2"
    by blast+
  have two: "length zones \<noteq> 2"
  proof
    assume "length zones = 2"
    with len' have "length (AList.delete idx fsz) = used" by simp
    with delete_shorter [OF z] len show False by simp
  qed
  with same rest z len show ?case by auto
qed

lemma delete_loop_total:
  assumes "length fsz = used"
    and "\<forall>k \<in> set keys. \<exists>zs. map_of fsz k = Some zs \<and> length zs \<noteq> 2"
  shows "delete_loop used keys fsz = Return fsz"
  using assms by (induction keys) auto

lemma delete_loop_RuntimeError:
  assumes "length fsz = used"
    and "\<forall>k \<in> set keys. \<exists>zs. map_of fsz k = Some zs"
    and "\<exists>k \<in> set keys. \<exists>zs. map_of fsz k = Some zs \<and> length zs = 2"
  shows "delete_loop used keys fsz = Raise RuntimeError"
  using assms
proof (induction keys)
  case Nil
  then show ?case by simp
next
  case (Cons idx rest)
  from Cons.prems(2) obtain zones where z: "map_of fsz idx = Some zones"
    by auto
  show ?case
  proof (cases "length zones = 2")
    case True
    from delete_shorter [OF z] Cons.prems(1) have
      "length (AList.delete idx fsz) \<noteq> used" by simp
    then have "delete_loop used rest (AList.delete idx fsz) = Raise RuntimeError"
      by simp
    with z True Cons.prems(1) show ?thesis by simp
  next
    case False
    with Cons.prems(3) z have
      "\<exists>k \<in> set rest. \<exists>zs. map_of fsz k = Some zs \<and> length zs = 2"
      by auto
    with Cons.IH Cons.prems have "delete_loop used rest fsz = Raise RuntimeError"
      by simp
    with z False Cons.prems(1) show ?thesis by simp
  qed
qed

lemma randint_Return:
  assumes "randint a b tape = Return (v, tape')"
  shows "a \<le> b \<and> (\<exists>r. tape = r # tape' \<and> v = a + int (r mod nat (b - a + 1)))"
  using assms
  by (auto simp: randint_def split: if_splits dest!: bind_Return randbelow_Return)

lemma randint_no_Raise: "a \<le> b \<Longrightarrow> randint a b tape \<noteq> Raise e"
  by (cases tape) (auto simp: randint_def)

lemma redraw_result:
  assumes "redraw cat excluded os tape = Return (v, tape')"
  shows "v \<notin> set excluded \<and> (v = os \<or> v < length (obstacles_sets cat))"
  using assms
proof (induction cat excluded os tape rule: redraw.induct)
  case (1 cat excluded os tape)
  show ?case
  proof (cases "os \<in> set excluded")
    case False
    with "1.prems" show ?thesis by simp
  next
    case True
    with "1.prems" obtain w tape1 where
      r: "randint 0 (int (length (obstacles_sets cat)) - 1) tape = Return (w, tape1)"
      and rec: "redraw cat excluded (nat w) tape1 = Return (v, tape')"
      by (auto split: result.splits)
    from randint_Return [OF r] have "nat w < length (obstacles_sets cat)"
      by (auto simp: nat_less_iff)
    with "1.IH" [OF True r refl rec] show ?thesis by auto
  qed
qed

lemma redraw_no_Raise:
  assumes "obstacles_sets cat \<noteq> []"
  shows "redraw cat excluded os tape \<noteq> Raise e"
  using assms
proof (induction cat excluded os tape rule: redraw.induct)
  case (1 cat excluded os tape)
  show ?case
  proof (cases "os \<in> set excluded")
    case False
    then show ?thesis by simp
  next
    case True
    have ok: "(0::int) \<le> int (length (obstacles_sets cat)) - 1"
      using "1.prems" by (cases "obstacles_sets cat") auto
    show ?thesis
    proof (cases "randint 0 (int (length (obstacles_sets cat)) - 1) tape")
      case Starved
      with True show ?thesis by simp
    next
      case (Raise e')
      with randint_no_Raise [OF ok] show ?thesis by simp
    next
      case (Return x)
      obtain w tape1 where x: "x = (w, tape1)" by (cases x)
      from "1.IH" [OF True Return [unfolded x] refl "1.prems"] True Return x
      show ?thesis by simp
    qed
  qed
qed

section \<open>Facts about the catalog of the module\<close>

lemma catalog_length: "length (obstacles_sets the_catalog) = 32"
  by (simp add: the_catalog_def)

lemma catalog_colors:
  "list_all (list_all (\<lambda>ob. color ob = GREEN \<or> color ob = RED)) (obstacles_sets the_catalog)"
  by (simp add: the_catalog_def Obstacle_init_def)

lemma catalog_usable:
  "list_all (usable_start_zone direction) (obstacles_sets the_catalog)"
  by (cases direction)
     (simp_all add: the_catalog_def Obstacle_init_def usable_start_zone_def
        zone_forbidden_def intersections_ahead_def)

lemma zones_length:
  assumes "distinct zs" and "set zs = {z. zone_forbidden direction z one_set}"
  shows "(length zs = 2) = (\<not> usable_start_zone direction one_set)"
proof -
  have sub: "set zs \<subseteq> {Z3, Z4}"
    using assms(2) ahead_zones
    by (auto simp: zone_forbidden_def list_ex_iff)
  have len: "length zs = card (set zs)"
    using assms(1) by (simp add: distinct_card)
  show ?thesis
  proof (cases "usable_start_zone direction one_set")
    case False
    then have "set zs = {Z3, Z4}"
      using assms(2) sub by (auto simp: usable_start_zone_def)
    with len False show ?thesis by simp
  next
    case True
    then have "set zs \<subseteq> {Z3} \<or> set zs \<subseteq> {Z4}"
      using assms(2) sub by (auto simp: usable_start_zone_def)
    then have "card (set zs) \<le> 1"
      by (metis card_mono finite.emptyI finite.insertI card.empty card_insert_disjoint
          empty_iff One_nat_def add.left_neutral plus_1_eq_Suc)
    with len True show ?thesis by simp
  qed
qed

section \<open>One pass of the rejection loop on the catalog of the module\<close>

lemma search_iteration_Return:
  assumes "search_iteration cat direction tape = Return (v, tape')"
  shows "\<exists>c m r os1 os2 v0 tape1 tape2 tape3.
    choice [GREEN, RED] tape = Return (c, tape1) \<and>
    map_of (mandatory_obstacles_sets cat) c = Some m \<and>
    choice (required_obstacles_sets cat) tape1 = Return (r, tape2) \<and>
    redraw cat [r, m] m tape2 = Return (os1, tape3) \<and>
    redraw cat [r, m, os1] m tape3 = Return (os2, tape') \<and>
    sets_loop cat direction [m, r, os1, os2] (init_vars [m, r, os1, os2]) = Return v0 \<and>
    delete_loop (length (forbidden_start_zones v0)) (map fst (forbidden_start_zones v0))
      (forbidden_start_zones v0) = Return (forbidden_start_zones v0) \<and>
    v = decide v0"
proof -
  from assms obtain c tape1 m r tape2 os1 tape3 os2 v0 fsz where
    a: "choice [GREEN, RED] tape = Return (c, tape1)"
    and m: "map_of (mandatory_obstacles_sets cat) c = Some m"
    and b: "choice (required_obstacles_sets cat) tape1 = Return (r, tape2)"
    and c: "redraw cat [r, m] m tape2 = Return (os1, tape3)"
    and d: "redraw cat [r, m, os1] m tape3 = Return (os2, tape')"
    and e: "sets_loop cat direction [m, r, os1, os2] (init_vars [m, r, os1, os2]) =
              Return v0"
    and f: "delete_loop (length (forbidden_start_zones v0))
              (map fst (forbidden_start_zones v0)) (forbidden_start_zones v0) = Return fsz"
    and g: "v = decide (v0\<lparr>forbidden_start_zones := fsz\<rparr>)"
    unfolding search_iteration_def
    by (auto dest!: bind_Return split: option.splits)
  from delete_loop_Return [OF f] have same: "fsz = forbidden_start_zones v0"
    by simp
  from a m b c d e f g show ?thesis
    unfolding same by auto
qed

lemma catalog_iteration_core:
  assumes "search_iteration the_catalog direction tape = Return (v, tape')"
  shows "\<exists>chosen v0. length chosen = 4 \<and> distinct chosen \<and>
    list_all (\<lambda>idx. idx < 32) chosen \<and>
    sets_loop the_catalog direction chosen (init_vars chosen) = Return v0 \<and>
    v = decide v0"
proof -
  from search_iteration_Return [OF assms] obtain c m r os1 os2 v0 tape1 tape2 tape3 where
    a: "choice [GREEN, RED] tape = Return (c, tape1)"
    and m: "map_of (mandatory_obstacles_sets the_catalog) c = Some m"
    and b: "choice (required_obstacles_sets the_catalog) tape1 = Return (r, tape2)"
    and c: "redraw the_catalog [r, m] m tape2 = Return (os1, tape3)"
    and d: "redraw the_catalog [r, m, os1] m tape3 = Return (os2, tape')"
    and e: "sets_loop the_catalog direction [m, r, os1, os2]
              (init_vars [m, r, os1, os2]) = Return v0"
    and g: "v = decide v0"
    by blast
  from m have m': "m = 8 \<or> m = 9"
    by (auto simp: the_catalog_def split: if_splits)
  from choice_member [OF b] have r': "r = 21 \<or> r = 22 \<or> r = 27 \<or> r = 28"
    by (auto simp: the_catalog_def)
  from redraw_result [OF c] have o1: "os1 \<noteq> r" "os1 \<noteq> m" "os1 = m \<or> os1 < 32"
    by (auto simp: catalog_length)
  from redraw_result [OF d] have
    o2: "os2 \<noteq> r" "os2 \<noteq> m" "os2 \<noteq> os1" "os2 = m \<or> os2 < 32"
    by (auto simp: catalog_length)
  have "length [m, r, os1, os2] = 4" by simp
  moreover have "distinct [m, r, os1, os2]"
    using m' r' o1 o2 by auto
  moreover have "list_all (\<lambda>idx. idx < 32) [m, r, os1, os2]"
    using m' r' o1 o2 by auto
  ultimately show ?thesis using e g by blast
qed

lemma catalog_iteration_facts:
  assumes "search_iteration the_catalog direction tape = Return (v, tape')"
  shows "length (chosen_obstacles_sets_indices v) = 4"
    and "distinct (chosen_obstacles_sets_indices v)"
    and "list_all (\<lambda>idx. idx < 32) (chosen_obstacles_sets_indices v)"
    and "obstacles_amount v = count_obstacles the_catalog (chosen_obstacles_sets_indices v)"
    and "green_amount v = count_color GREEN the_catalog (chosen_obstacles_sets_indices v)"
    and "red_amount v = count_color RED the_catalog (chosen_obstacles_sets_indices v)"
    and "map fst (forbidden_start_zones v) = chosen_obstacles_sets_indices v"
    and "\<forall>idx \<in> set (chosen_obstacles_sets_indices v).
           \<exists>zs. map_of (forbidden_start_zones v) idx = Some zs \<and> distinct zs \<and>
             set zs = {z. zone_forbidden direction z (obstacles_sets the_catalog ! idx)}"
    and "set (obstacles_set_suitable_for_parking_section v) =
           {idx \<in> set (chosen_obstacles_sets_indices v).
              parking_eligible (obstacles_sets the_catalog ! idx)}"
    and "satisfied v =
           (abs (green_amount v - red_amount v) \<le> 1 \<and> obstacles_amount v > 4 \<and>
            length (forbidden_start_zones v) > 0 \<and>
            length (obstacles_set_suitable_for_parking_section v) > 0)"
proof -
  from catalog_iteration_core [OF assms] obtain chosen v0 where
    l: "length chosen = 4" and d: "distinct chosen"
    and r: "list_all (\<lambda>idx. idx < 32) chosen"
    and s: "sets_loop the_catalog direction chosen (init_vars chosen) = Return v0"
    and v: "v = decide v0"
    by blast
  note S = sets_loop_Return [OF s]
  have "set chosen \<inter> set (map fst (forbidden_start_zones (init_vars chosen))) = {}"
    by (simp add: init_vars_def)
  note Z = sets_loop_zones [OF s d this]
  have c: "chosen_obstacles_sets_indices v = chosen"
    using S v by (simp add: decide_def init_vars_def Let_def)
  have f: "forbidden_start_zones v = forbidden_start_zones v0"
    using v by (simp add: decide_def Let_def)
  show "length (chosen_obstacles_sets_indices v) = 4"
    "distinct (chosen_obstacles_sets_indices v)"
    "list_all (\<lambda>idx. idx < 32) (chosen_obstacles_sets_indices v)"
    using c l d r by simp_all
  show "obstacles_amount v = count_obstacles the_catalog (chosen_obstacles_sets_indices v)"
    "green_amount v = count_color GREEN the_catalog (chosen_obstacles_sets_indices v)"
    "red_amount v = count_color RED the_catalog (chosen_obstacles_sets_indices v)"
    using S v c by (simp_all add: decide_def init_vars_def Let_def)
  show "map fst (forbidden_start_zones v) = chosen_obstacles_sets_indices v"
    using Z f c by (simp add: init_vars_def)
  show "\<forall>idx \<in> set (chosen_obstacles_sets_indices v).
           \<exists>zs. map_of (forbidden_start_zones v) idx = Some zs \<and> distinct zs \<and>
             set zs = {z. zone_forbidden direction z (obstacles_sets the_catalog ! idx)}"
    using Z unfolding f c by blast
  have "set (obstacles_set_conflicting_with_parking_section v0) =
      {idx \<in> set chosen. \<not> parking_eligible (obstacles_sets the_catalog ! idx)}"
    using S by (simp add: init_vars_def)
  moreover have "chosen_obstacles_sets_indices v0 = chosen"
    using S by (simp add: init_vars_def)
  ultimately show "set (obstacles_set_suitable_for_parking_section v) =
           {idx \<in> set (chosen_obstacles_sets_indices v).
              parking_eligible (obstacles_sets the_catalog ! idx)}"
    unfolding c using v by (auto simp: decide_def Let_def)
  show "satisfied v =
           (abs (green_amount v - red_amount v) \<le> 1 \<and> obstacles_amount v > 4 \<and>
            length (forbidden_start_zones v) > 0 \<and>
            length (obstacles_set_suitable_for_parking_section v) > 0)"
    using v by (simp add: decide_def Let_def)
qed

lemma catalog_nth:
  assumes "idx < 32"
  shows "list_all (\<lambda>ob. color ob = GREEN \<or> color ob = RED) (obstacles_sets the_catalog ! idx)"
    and "usable_start_zone direction (obstacles_sets the_catalog ! idx)"
  using assms catalog_colors catalog_usable [of direction]
  by (simp_all add: list_all_length catalog_length)

lemma catalog_iteration_accept:
  assumes "search_iteration the_catalog direction tape = Return (v, tape')"
  shows "satisfied v = four_predicates the_catalog direction (chosen_obstacles_sets_indices v)"
proof -
  note F = catalog_iteration_facts [OF assms]
  let ?chosen = "chosen_obstacles_sets_indices v"
  have ne: "?chosen \<noteq> []" using F(1) by auto
  then obtain idx where i: "idx \<in> set ?chosen" by (cases ?chosen) auto
  with F(3) have "idx < 32" by (simp add: list_all_iff)
  from catalog_nth(2) [OF this] i have
    u: "list_ex (\<lambda>idx. usable_start_zone direction (obstacles_sets the_catalog ! idx)) ?chosen"
    by (auto simp: list_ex_iff)
  have z: "length (forbidden_start_zones v) > 0"
    using F(7) F(1) by (metis length_map zero_less_numeral)
  have p: "(length (obstacles_set_suitable_for_parking_section v) > 0) =
     list_ex (\<lambda>idx. parking_eligible (obstacles_sets the_catalog ! idx)) ?chosen"
  proof -
    have "(length (obstacles_set_suitable_for_parking_section v) > 0) =
       (set (obstacles_set_suitable_for_parking_section v) \<noteq> {})"
      by simp
    also have "\<dots> =
       (\<exists>idx \<in> set ?chosen. parking_eligible (obstacles_sets the_catalog ! idx))"
      unfolding F(9) by blast
    finally show ?thesis by (simp add: list_ex_iff)
  qed
  show ?thesis
    unfolding F(10) four_predicates_def using u z p F(4) F(5) F(6) by simp
qed

section \<open>The rejection loop\<close>

lemma search_step:
  assumes "search_iteration cat direction tape = Return (v, tape')"
  shows "search cat direction tape =
           (if satisfied v then Return (v, tape') else search cat direction tape')"
  using assms by (subst search.simps) simp

lemma search_Return:
  assumes "search cat direction tape = Return (v, tape')"
  shows "satisfied v \<and> length tape' < length tape \<and>
         (\<exists>tape0. search_iteration cat direction tape0 = Return (v, tape'))"
  using assms
proof (induction cat direction tape rule: search.induct)
  case (1 cat direction tape)
  from "1.prems" obtain w tape1 where
    i: "search_iteration cat direction tape = Return (w, tape1)"
    by (subst (asm) search.simps) (auto split: result.splits)
  note short = search_iteration_shorter [OF i]
  show ?case
  proof (cases "satisfied w")
    case True
    with "1.prems" i have "w = v" "tape1 = tape'"
      by (simp_all add: search_step)
    with True i short show ?thesis by auto
  next
    case False
    with "1.prems" i have "search cat direction tape1 = Return (v, tape')"
      by (simp add: search_step)
    from "1.IH" [OF i refl False this] short show ?thesis by auto
  qed
qed

lemma bind_Raise:
  "bind m f = Raise e \<Longrightarrow> m = Raise e \<or> (\<exists>x. m = Return x \<and> f x = Raise e)"
  by (cases m) auto

lemma randbelow_no_Raise: "randbelow n tape \<noteq> Raise e"
  by (cases tape) auto

lemma choice_no_Raise: "seq \<noteq> [] \<Longrightarrow> choice seq tape \<noteq> Raise e"
  by (cases tape) (auto simp: choice_def)

lemma catalog_chosen_ok:
  assumes "distinct chosen" and "list_all (\<lambda>idx. idx < 32) chosen"
  shows "\<exists>v0. sets_loop the_catalog direction chosen (init_vars chosen) = Return v0 \<and>
    delete_loop (length (forbidden_start_zones v0)) (map fst (forbidden_start_zones v0))
      (forbidden_start_zones v0) = Return (forbidden_start_zones v0)"
proof -
  have "list_all (\<lambda>idx. idx < length (obstacles_sets the_catalog) \<and>
             list_all (\<lambda>ob. color ob = GREEN \<or> color ob = RED)
               (obstacles_sets the_catalog ! idx)) chosen"
    using assms(2) catalog_nth(1) by (auto simp: list_all_iff catalog_length)
  from sets_loop_total [OF this] obtain v0 where
    s: "sets_loop the_catalog direction chosen (init_vars chosen) = Return v0"
    by blast
  have "set chosen \<inter> set (map fst (forbidden_start_zones (init_vars chosen))) = {}"
    by (simp add: init_vars_def)
  note Z = sets_loop_zones [OF s assms(1) this]
  have keys: "map fst (forbidden_start_zones v0) = chosen"
    using Z by (simp add: init_vars_def)
  have "\<exists>zs. map_of (forbidden_start_zones v0) k = Some zs \<and> length zs \<noteq> 2"
    if k: "k \<in> set chosen" for k
  proof -
    from Z k obtain zs where
      z: "map_of (forbidden_start_zones v0) k = Some zs" "distinct zs"
        "set zs = {z. zone_forbidden direction z (obstacles_sets the_catalog ! k)}"
      by blast
    from k assms(2) have "k < 32" by (simp add: list_all_iff)
    from catalog_nth(2) [OF this] zones_length [OF z(2) z(3)] z(1)
    show ?thesis by simp
  qed
  then have "delete_loop (length (forbidden_start_zones v0))
      (map fst (forbidden_start_zones v0)) (forbidden_start_zones v0) =
      Return (forbidden_start_zones v0)"
    unfolding keys by (intro delete_loop_total) auto
  with s show ?thesis by blast
qed

lemma catalog_iteration_no_Raise:
  "search_iteration the_catalog direction tape \<noteq> Raise e"
proof
  assume raised: "search_iteration the_catalog direction tape = Raise e"
  have ne: "obstacles_sets the_catalog \<noteq> []"
    using catalog_length by auto
  obtain c tape1 where a: "choice [GREEN, RED] tape = Return (c, tape1)"
    using raised unfolding search_iteration_def
    by (cases "choice [GREEN, RED] tape") (auto simp: choice_no_Raise)
  from choice_member [OF a] obtain m where
    m: "map_of (mandatory_obstacles_sets the_catalog) c = Some m" "m = 8 \<or> m = 9"
    by (auto simp: the_catalog_def)
  have rq: "required_obstacles_sets the_catalog \<noteq> []"
    by (simp add: the_catalog_def)
  obtain r tape2 where
    b: "choice (required_obstacles_sets the_catalog) tape1 = Return (r, tape2)"
    using raised a m(1) unfolding search_iteration_def
    by (cases "choice (required_obstacles_sets the_catalog) tape1")
       (auto simp: choice_no_Raise [OF rq])
  from choice_member [OF b] have r: "r = 21 \<or> r = 22 \<or> r = 27 \<or> r = 28"
    by (auto simp: the_catalog_def)
  obtain os1 tape3 where c: "redraw the_catalog [r, m] m tape2 = Return (os1, tape3)"
    using raised a m(1) b unfolding search_iteration_def
    by (cases "redraw the_catalog [r, m] m tape2")
       (auto simp: redraw_no_Raise [OF ne] simp del: redraw.simps)
  obtain os2 tape4 where
    d: "redraw the_catalog [r, m, os1] m tape3 = Return (os2, tape4)"
    using raised a m(1) b c unfolding search_iteration_def
    by (cases "redraw the_catalog [r, m, os1] m tape3")
       (auto simp: redraw_no_Raise [OF ne] simp del: redraw.simps)
  from redraw_result [OF c] have o1: "os1 \<noteq> r" "os1 \<noteq> m" "os1 = m \<or> os1 < 32"
    by (auto simp: catalog_length)
  from redraw_result [OF d] have
    o2: "os2 \<noteq> r" "os2 \<noteq> m" "os2 \<noteq> os1" "os2 = m \<or> os2 < 32"
    by (auto simp: catalog_length)
  have "distinct [m, r, os1, os2]" "list_all (\<lambda>idx. idx < 32) [m, r, os1, os2]"
    using m(2) r o1 o2 by auto
  from catalog_chosen_ok [OF this, of direction] obtain v0 where
    "sets_loop the_catalog direction [m, r, os1, os2] (init_vars [m, r, os1, os2]) =
       Return v0"
    "delete_loop (length (forbidden_start_zones v0)) (map fst (forbidden_start_zones v0))
      (forbidden_start_zones v0) = Return (forbidden_start_zones v0)"
    by blast
  with raised a m(1) b c d show False
    unfolding search_iteration_def by (simp del: redraw.simps sets_loop.simps delete_loop.simps)
qed

lemma catalog_search_no_Raise: "search the_catalog direction tape \<noteq> Raise e"
proof (induction tape rule: length_induct)
  case (1 tape)
  show ?case
  proof (cases "search_iteration the_catalog direction tape")
    case Starved
    then show ?thesis by (subst search.simps) simp
  next
    case (Raise e')
    then show ?thesis by (simp add: catalog_iteration_no_Raise)
  next
    case (Return x)
    obtain v tape' where x: "x = (v, tape')" by (cases x)
    from search_iteration_shorter [OF Return [unfolded x]] "1.IH"
    have "search the_catalog direction tape' \<noteq> Raise e" by simp
    with Return x show ?thesis by (simp add: search_step)
  qed
qed

section \<open>After the loop: sections, start and parking\<close>

lemma pool_remove:
  assumes "distinct pool" and "j < length pool"
  shows "distinct (butlast (pool[j := last pool])) \<and>
         set (butlast (pool[j := last pool])) = set pool - {pool ! j}"
proof -
  from assms(2) have "pool \<noteq> []" by auto
  then obtain xs l where p: "pool = xs @ [l]"
    by (metis append_butlast_last_id)
  with assms(1) have d: "distinct xs" and l: "l \<notin> set xs" by auto
  show ?thesis
  proof (cases "j = length xs")
    case True
    with p d l show ?thesis by auto
  next
    case False
    with assms(2) p have j: "j < length xs" by simp
    have b: "butlast (pool[j := last pool]) = xs[j := l]"
      using p j by (simp add: list_update_append)
    have n: "pool ! j = xs ! j"
      using p j by (simp add: nth_append)
    have "set (xs[j := l]) = insert l (set xs - {xs ! j})"
      using d j by (rule set_update_distinct)
    moreover have "xs ! j \<noteq> l"
      using j l by (metis nth_mem)
    moreover have "distinct (xs[j := l])"
      using d l by (intro distinct_list_update) auto
    ultimately show ?thesis
      unfolding b n using p l by auto
  qed
qed

lemma sample_pool_Return:
  assumes "sample_pool pool k tape = Return (res, tape')"
    and "distinct pool" and "k \<le> length pool"
  shows "distinct res \<and> set res \<subseteq> set pool \<and> length res = k"
  using assms
proof (induction k arbitrary: pool tape res)
  case 0
  then show ?case by simp
next
  case (Suc k)
  from Suc.prems(1) obtain j tape1 res1 where
    r: "randbelow (length pool) tape = Return (j, tape1)"
    and s: "sample_pool (butlast (pool[j := last pool])) k tape1 = Return (res1, tape')"
    and e: "res = pool ! j # res1"
    by (auto split: result.splits)
  have "0 < length pool" using Suc.prems(3) by (cases pool) auto
  with randbelow_Return [OF r] have j: "j < length pool"
    by auto
  note P = pool_remove [OF Suc.prems(2) j]
  have "k \<le> length (butlast (pool[j := last pool]))"
    using Suc.prems(3) by simp
  from Suc.IH [OF s conjunct1 [OF P] this] have
    "distinct res1" "set res1 \<subseteq> set pool - {pool ! j}" "length res1 = k"
    using P by auto
  with e j show ?case by auto
qed

lemma sample_pool_no_Raise: "sample_pool pool k tape \<noteq> Raise e"
  by (induction k arbitrary: pool tape)
     (auto simp: randbelow_no_Raise split: result.splits)

lemma sample_sections:
  assumes "sample sections 4 tape = Return (shuffled, tape')"
  shows "distinct shuffled \<and> set shuffled = {NORTH, WEST, SOUTH, EAST} \<and>
         length shuffled = 4"
proof -
  from assms have "sample_pool sections 4 tape = Return (shuffled, tape')"
    by (simp add: sample_def sections_def)
  from sample_pool_Return [OF this] have
    d: "distinct shuffled" and s: "set shuffled \<subseteq> set sections"
    and l: "length shuffled = 4"
    by (simp_all add: sections_def)
  have "card (set shuffled) = 4"
    using d l by (simp add: distinct_card)
  moreover have "card (set sections) = 4"
    by (simp add: sections_def)
  ultimately have "set shuffled = set sections"
    using s by (intro card_subset_eq) auto
  with d l show ?thesis by (auto simp: sections_def)
qed

lemma sample_sections_no_Raise: "sample sections 4 tape \<noteq> Raise e"
  by (simp add: sample_def sections_def sample_pool_no_Raise)

lemma assign_sections_zip:
  assumes "distinct keys" and "set keys \<inter> set (map fst m) = {}"
    and "length keys \<le> length shuffled"
  shows "assign_sections keys shuffled m = Return (m @ zip keys (rev shuffled))"
  using assms
proof (induction keys arbitrary: shuffled m)
  case Nil
  then show ?case by simp
next
  case (Cons idx rest)
  from Cons.prems(3) have ne: "shuffled \<noteq> []" by auto
  then have sh: "shuffled = butlast shuffled @ [last shuffled]" by simp
  have new: "idx \<notin> set (map fst m)" using Cons.prems(2) by auto
  have u: "AList.update idx (last shuffled) m = m @ [(idx, last shuffled)]"
    using new by (rule update_new_key)
  have "assign_sections rest (butlast shuffled) (m @ [(idx, last shuffled)]) =
          Return ((m @ [(idx, last shuffled)]) @ zip rest (rev (butlast shuffled)))"
    using Cons.prems by (intro Cons.IH) auto
  moreover have rv: "rev shuffled = last shuffled # rev (butlast shuffled)"
    by (subst sh) simp
  have "zip (idx # rest) (rev shuffled) =
          (idx, last shuffled) # zip rest (rev (butlast shuffled))"
    by (subst rv) simp
  ultimately show ?case using ne u by simp
qed

lemma map_of_inj:
  assumes "distinct (map snd al)" and "map_of al a = Some x" and "map_of al b = Some x"
  shows "a = b"
proof -
  from assms(2,3) have "(a, x) \<in> set al" "(b, x) \<in> set al"
    by (auto dest: map_of_SomeD)
  with assms(1) show ?thesis
    by (metis (no_types) distinct_map inj_on_def prod.inject snd_conv)
qed

lemma finish_Return:
  assumes "finish v tape = Return (s, tape')"
    and "length (chosen_obstacles_sets_indices v) = 4"
    and "distinct (chosen_obstacles_sets_indices v)"
  shows "\<exists>shuffled tape1 st tape2 pk tape3 forb.
    sample sections 4 tape = Return (shuffled, tape1) \<and>
    obstacles s = zip (chosen_obstacles_sets_indices v) (rev shuffled) \<and>
    choice (map fst (forbidden_start_zones v)) tape1 = Return (st, tape2) \<and>
    map_of (obstacles s) st = Some (start_section s) \<and>
    choice (obstacles_set_suitable_for_parking_section v) tape2 = Return (pk, tape3) \<and>
    map_of (obstacles s) pk = Some (parking_section s) \<and>
    map_of (forbidden_start_zones v) st = Some forb \<and>
    choice (filter (\<lambda>zone. zone \<notin> set forb) [Z3, Z4]) tape3 =
      Return (start_zone s, tape')"
proof -
  from assms(1) obtain shuffled tape1 sfos where
    a: "sample sections 4 tape = Return (shuffled, tape1)"
    and b: "assign_sections (chosen_obstacles_sets_indices v) shuffled [] = Return sfos"
    unfolding finish_def by (auto dest!: bind_Return)
  from sample_sections [OF a] assms(2) have
    "length (chosen_obstacles_sets_indices v) \<le> length shuffled" by simp
  from assign_sections_zip [OF assms(3) _ this, of "[]"] b have
    z: "sfos = zip (chosen_obstacles_sets_indices v) (rev shuffled)"
    by simp
  from assms(1) a b obtain st tape2 sec pk tape3 psec forb zone where
    c: "choice (map fst (forbidden_start_zones v)) tape1 = Return (st, tape2)"
    and d: "map_of sfos st = Some sec"
    and e: "choice (obstacles_set_suitable_for_parking_section v) tape2 = Return (pk, tape3)"
    and f: "map_of sfos pk = Some psec"
    and g: "map_of (forbidden_start_zones v) st = Some forb"
    and h: "choice (filter (\<lambda>zone. zone \<notin> set forb) [Z3, Z4]) tape3 = Return (zone, tape')"
    and s: "s = \<lparr>start_section = sec, start_zone = zone, obstacles = sfos,
                 parking_section = psec\<rparr>"
    unfolding finish_def
    by (auto dest!: bind_Return split: option.splits simp del: filter.simps)
  from a c d e f g h show ?thesis
    unfolding s z by auto
qed

lemma finish_no_Raise:
  assumes "length (chosen_obstacles_sets_indices v) = 4"
    and "distinct (chosen_obstacles_sets_indices v)"
    and "map fst (forbidden_start_zones v) = chosen_obstacles_sets_indices v"
    and "set (obstacles_set_suitable_for_parking_section v) \<subseteq>
           set (chosen_obstacles_sets_indices v)"
    and "obstacles_set_suitable_for_parking_section v \<noteq> []"
    and "\<forall>idx \<in> set (chosen_obstacles_sets_indices v).
           \<exists>zs. map_of (forbidden_start_zones v) idx = Some zs \<and>
                (Z3 \<notin> set zs \<or> Z4 \<notin> set zs)"
  shows "finish v tape \<noteq> Raise e"
proof
  assume raised: "finish v tape = Raise e"
  let ?chosen = "chosen_obstacles_sets_indices v"
  obtain shuffled tape1 where a: "sample sections 4 tape = Return (shuffled, tape1)"
    using raised unfolding finish_def
    by (cases "sample sections 4 tape") (auto simp: sample_sections_no_Raise)
  from sample_sections [OF a] assms(1) have len: "length ?chosen = length (rev shuffled)"
    by simp
  then have "length ?chosen \<le> length shuffled" by simp
  from assign_sections_zip [OF assms(2) _ this, of "[]"] have
    b: "assign_sections ?chosen shuffled [] = Return (zip ?chosen (rev shuffled))"
    by simp
  have ne: "map fst (forbidden_start_zones v) \<noteq> []"
    using assms(1) assms(3) by auto
  obtain st tape2 where
    c: "choice (map fst (forbidden_start_zones v)) tape1 = Return (st, tape2)"
    using raised a b unfolding finish_def
    by (cases "choice (map fst (forbidden_start_zones v)) tape1")
       (auto simp: choice_no_Raise [OF ne])
  from choice_member [OF c] assms(3) have st: "st \<in> set ?chosen" by simp
  with map_of_zip_is_Some [OF len] obtain sec where
    d: "map_of (zip ?chosen (rev shuffled)) st = Some sec" by blast
  obtain pk tape3 where
    e: "choice (obstacles_set_suitable_for_parking_section v) tape2 = Return (pk, tape3)"
    using raised a b c d unfolding finish_def
    by (cases "choice (obstacles_set_suitable_for_parking_section v) tape2")
       (auto simp: choice_no_Raise [OF assms(5)])
  from choice_member [OF e] assms(4) have "pk \<in> set ?chosen" by auto
  with map_of_zip_is_Some [OF len] obtain psec where
    f: "map_of (zip ?chosen (rev shuffled)) pk = Some psec" by blast
  from assms(6) st obtain forb where
    g: "map_of (forbidden_start_zones v) st = Some forb"
    and u: "Z3 \<notin> set forb \<or> Z4 \<notin> set forb"
    by blast
  from u have "filter (\<lambda>zone. zone \<notin> set forb) [Z3, Z4] \<noteq> []"
    by auto
  from choice_no_Raise [OF this] raised a b c d e f g show False
    unfolding finish_def
    by (cases "choice (filter (\<lambda>zone. zone \<notin> set forb) [Z3, Z4]) tape3")
       (auto simp del: filter.simps)
qed

section \<open>The generator on the catalog of the module\<close>

lemma catalog_generator_Return:
  assumes "randomize_and_draw_layout_for_obstacle the_catalog direction tape =
             Return (s, tape')"
  shows "\<exists>v tape0 tape1.
    search_iteration the_catalog direction tape0 = Return (v, tape1) \<and>
    search the_catalog direction tape = Return (v, tape1) \<and>
    satisfied v \<and> finish v tape1 = Return (s, tape')"
proof -
  from assms obtain v tape1 where
    a: "search the_catalog direction tape = Return (v, tape1)"
    and b: "finish v tape1 = Return (s, tape')"
    unfolding randomize_and_draw_layout_for_obstacle_def
    by (auto dest!: bind_Return simp del: search.simps)
  from search_Return [OF a] a b show ?thesis by blast
qed

lemma usable_zone_left:
  assumes "set zs = {z. zone_forbidden direction z one_set}"
    and "usable_start_zone direction one_set"
  shows "Z3 \<notin> set zs \<or> Z4 \<notin> set zs"
  using assms by (auto simp: usable_start_zone_def)

lemma catalog_generator_no_Raise:
  "randomize_and_draw_layout_for_obstacle the_catalog direction tape \<noteq> Raise e"
proof
  assume raised:
    "randomize_and_draw_layout_for_obstacle the_catalog direction tape = Raise e"
  then obtain v tape1 where
    a: "search the_catalog direction tape = Return (v, tape1)"
    and b: "finish v tape1 = Raise e"
    unfolding randomize_and_draw_layout_for_obstacle_def
    by (auto dest!: bind_Raise simp: catalog_search_no_Raise simp del: search.simps)
  from search_Return [OF a] obtain tape0 where
    sat: "satisfied v"
    and i: "search_iteration the_catalog direction tape0 = Return (v, tape1)"
    by blast
  note F = catalog_iteration_facts [OF i]
  have sub: "set (obstacles_set_suitable_for_parking_section v) \<subseteq>
           set (chosen_obstacles_sets_indices v)"
    unfolding F(9) by blast
  have ne: "obstacles_set_suitable_for_parking_section v \<noteq> []"
    using sat unfolding F(10) by auto
  have z: "\<forall>idx \<in> set (chosen_obstacles_sets_indices v).
           \<exists>zs. map_of (forbidden_start_zones v) idx = Some zs \<and>
                (Z3 \<notin> set zs \<or> Z4 \<notin> set zs)"
  proof
    fix idx assume k: "idx \<in> set (chosen_obstacles_sets_indices v)"
    with F(8) obtain zs where
      zs: "map_of (forbidden_start_zones v) idx = Some zs"
        "set zs = {z. zone_forbidden direction z (obstacles_sets the_catalog ! idx)}"
      by blast
    from k F(3) have "idx < 32" by (simp add: list_all_iff)
    from usable_zone_left [OF zs(2) catalog_nth(2) [OF this]] zs(1)
    show "\<exists>zs. map_of (forbidden_start_zones v) idx = Some zs \<and>
                (Z3 \<notin> set zs \<or> Z4 \<notin> set zs)"
      by blast
  qed
  from finish_no_Raise [OF F(1) F(2) F(7) sub ne z] b show False by blast
qed

lemma catalog_layout_keys:
  assumes "search_iteration the_catalog direction tape0 = Return (v, tape1)"
    and "finish v tape1 = Return (s, tape')"
  shows "map fst (obstacles s) = chosen_obstacles_sets_indices v"
    and "distinct (map snd (obstacles s))"
    and "set (map snd (obstacles s)) = {NORTH, WEST, SOUTH, EAST}"
    and "length (obstacles s) = 4"
proof -
  note F = catalog_iteration_facts [OF assms(1)]
  from finish_Return [OF assms(2) F(1) F(2)] obtain shuffled tape2 where
    a: "sample sections 4 tape1 = Return (shuffled, tape2)"
    and z: "obstacles s = zip (chosen_obstacles_sets_indices v) (rev shuffled)"
    by blast
  note S = sample_sections [OF a]
  have len: "length (chosen_obstacles_sets_indices v) = length (rev shuffled)"
    using S F(1) by simp
  show "map fst (obstacles s) = chosen_obstacles_sets_indices v"
    unfolding z using len by simp
  have snd: "map snd (obstacles s) = rev shuffled"
    unfolding z using len by simp
  show "distinct (map snd (obstacles s))"
    unfolding snd using S by simp
  show "set (map snd (obstacles s)) = {NORTH, WEST, SOUTH, EAST}"
    unfolding snd using S by simp
  show "length (obstacles s) = 4"
    unfolding z using len F(1) by simp
qed

text \<open>
  Claim C1. On the catalog of the module, a pass of the rejection loop that draws the
  four indices of \<open>v\<close> ends the loop with this draw exactly when the four rules hold
  for the four chosen sets: the green and red counts differ by at most one, there are
  more than four obstacles, some chosen set has a usable start zone and some chosen set
  is parking-eligible; otherwise the loop runs on with the rest of the tape. The
  indices of every layout that is returned satisfy the four rules.
\<close>

theorem rejection_loop_exit_iff:
  "(search_iteration the_catalog direction tape = Return (v, tape1) \<longrightarrow>
      ((search the_catalog direction tape = Return (v, tape1)) =
         four_predicates the_catalog direction (chosen_obstacles_sets_indices v)) \<and>
      (\<not> four_predicates the_catalog direction (chosen_obstacles_sets_indices v) \<longrightarrow>
         search the_catalog direction tape = search the_catalog direction tape1)) \<and>
   (randomize_and_draw_layout_for_obstacle the_catalog direction tape = Return (s, tape') \<longrightarrow>
      four_predicates the_catalog direction (map fst (obstacles s)))"
proof (intro conjI impI)
  assume i: "search_iteration the_catalog direction tape = Return (v, tape1)"
  note acc = catalog_iteration_accept [OF i]
  note step = search_step [OF i]
  have no: "search the_catalog direction tape1 \<noteq> Return (v, tape1)"
    using search_Return [of the_catalog direction tape1 v tape1] by auto
  show "(search the_catalog direction tape = Return (v, tape1)) =
         four_predicates the_catalog direction (chosen_obstacles_sets_indices v)"
    unfolding step acc [symmetric] using no by simp
  assume "\<not> four_predicates the_catalog direction (chosen_obstacles_sets_indices v)"
  then show "search the_catalog direction tape = search the_catalog direction tape1"
    unfolding step acc [symmetric] by simp
next
  assume "randomize_and_draw_layout_for_obstacle the_catalog direction tape =
            Return (s, tape')"
  from catalog_generator_Return [OF this] obtain v0 tape0 tape2 where
    i: "search_iteration the_catalog direction tape0 = Return (v0, tape2)"
    and sat: "satisfied v0"
    and f: "finish v0 tape2 = Return (s, tape')"
    by blast
  from catalog_layout_keys(1) [OF i f] catalog_iteration_accept [OF i] sat
  show "four_predicates the_catalog direction (map fst (obstacles s))"
    by simp
qed

theorem rejection_loop_exit_iff_witness:
  "search_iteration the_catalog CW [0, 0, 15, 0, 0, 0, 0, 0, 0, 0, 0] =
     Return (\<lparr>chosen_obstacles_sets_indices = [8, 21, 15, 0],
              forbidden_start_zones = [(8, [Z4]), (21, [Z3]), (15, [Z3]), (0, [Z3])],
              obstacles_set_conflicting_with_parking_section = [15, 8],
              obstacles_amount = 6, green_amount = 3, red_amount = 3,
              obstacles_set_suitable_for_parking_section = [21, 0],
              satisfied = True\<rparr>, [0, 0, 0, 0, 0, 0, 0]) \<and>
   four_predicates the_catalog CW [8, 21, 15, 0] \<and>
   search the_catalog CW [0, 0, 15, 0, 0, 0, 0, 0, 0, 0, 0] =
     Return (\<lparr>chosen_obstacles_sets_indices = [8, 21, 15, 0],
              forbidden_start_zones = [(8, [Z4]), (21, [Z3]), (15, [Z3]), (0, [Z3])],
              obstacles_set_conflicting_with_parking_section = [15, 8],
              obstacles_amount = 6, green_amount = 3, red_amount = 3,
              obstacles_set_suitable_for_parking_section = [21, 0],
              satisfied = True\<rparr>, [0, 0, 0, 0, 0, 0, 0]) \<and>
   randomize_and_draw_layout_for_obstacle the_catalog CCW
       [1, 2, 9, 30, 4, 3, 1, 0, 0, 2, 1, 1] =
     Return (\<lparr>start_section = WEST, start_zone = Z3,
              obstacles = [(9, SOUTH), (27, NORTH), (30, WEST), (4, EAST)],
              parking_section = EAST\<rparr>, []) \<and>
   four_predicates the_catalog CCW [9, 27, 30, 4] \<and>
   search_iteration the_catalog CW [0, 0, 0, 2] =
     Return (\<lparr>chosen_obstacles_sets_indices = [8, 21, 0, 2],
              forbidden_start_zones = [(8, [Z4]), (21, [Z3]), (0, [Z3]), (2, [Z4])],
              obstacles_set_conflicting_with_parking_section = [8],
              obstacles_amount = 5, green_amount = 4, red_amount = 1,
              obstacles_set_suitable_for_parking_section = [21, 0, 2],
              satisfied = False\<rparr>, []) \<and>
   \<not> four_predicates the_catalog CW [8, 21, 0, 2] \<and>
   search the_catalog CW [0, 0, 0, 2] = search the_catalog CW []"
proof -
  have i: "search_iteration the_catalog CW [0, 0, 15, 0, 0, 0, 0, 0, 0, 0, 0] =
     Return (\<lparr>chosen_obstacles_sets_indices = [8, 21, 15, 0],
              forbidden_start_zones = [(8, [Z4]), (21, [Z3]), (15, [Z3]), (0, [Z3])],
              obstacles_set_conflicting_with_parking_section = [15, 8],
              obstacles_amount = 6, green_amount = 3, red_amount = 3,
              obstacles_set_suitable_for_parking_section = [21, 0],
              satisfied = True\<rparr>, [0, 0, 0, 0, 0, 0, 0])"
    by code_simp
  have p: "four_predicates the_catalog CW [8, 21, 15, 0]"
    by code_simp
  have g: "randomize_and_draw_layout_for_obstacle the_catalog CCW
             [1, 2, 9, 30, 4, 3, 1, 0, 0, 2, 1, 1] =
     Return (\<lparr>start_section = WEST, start_zone = Z3,
              obstacles = [(9, SOUTH), (27, NORTH), (30, WEST), (4, EAST)],
              parking_section = EAST\<rparr>, [])"
    by code_simp
  from rejection_loop_exit_iff [of CCW "[1, 2, 9, 30, 4, 3, 1, 0, 0, 2, 1, 1]",
      THEN conjunct2, rule_format, OF g]
  have h: "four_predicates the_catalog CCW [9, 27, 30, 4]"
    by simp
  have j: "search_iteration the_catalog CW [0, 0, 0, 2] =
     Return (\<lparr>chosen_obstacles_sets_indices = [8, 21, 0, 2],
              forbidden_start_zones = [(8, [Z4]), (21, [Z3]), (0, [Z3]), (2, [Z4])],
              obstacles_set_conflicting_with_parking_section = [8],
              obstacles_amount = 5, green_amount = 4, red_amount = 1,
              obstacles_set_suitable_for_parking_section = [21, 0, 2],
              satisfied = False\<rparr>, [])"
    by code_simp
  have q: "\<not> four_predicates the_catalog CW [8, 21, 0, 2]"
    by code_simp
  note t1 = rejection_loop_exit_iff [of CW "[0, 0, 15, 0, 0, 0, 0, 0, 0, 0, 0]",
      THEN conjunct1, rule_format, OF i]
  note t2 = rejection_loop_exit_iff [of CW "[0, 0, 0, 2]", THEN conjunct1, rule_format, OF j]
  from t1 p have a: "search the_catalog CW [0, 0, 15, 0, 0, 0, 0, 0, 0, 0, 0] =
     Return (\<lparr>chosen_obstacles_sets_indices = [8, 21, 15, 0],
              forbidden_start_zones = [(8, [Z4]), (21, [Z3]), (15, [Z3]), (0, [Z3])],
              obstacles_set_conflicting_with_parking_section = [15, 8],
              obstacles_amount = 6, green_amount = 3, red_amount = 3,
              obstacles_set_suitable_for_parking_section = [21, 0],
              satisfied = True\<rparr>, [0, 0, 0, 0, 0, 0, 0])"
    by simp
  from t2 q have b: "search the_catalog CW [0, 0, 0, 2] = search the_catalog CW []"
    by simp
  from i p a g h j q b show ?thesis
    by (intro conjI)
qed

text \<open>
  Claim C2. In every layout the obstacle round returns, the four chosen indices are
  pairwise distinct, each is given one section, no two indices are given the same
  section, and the sections given are the four sections North, West, South and East.
\<close>

theorem obstacle_sets_bijection:
  assumes "randomize_and_draw_layout_for_obstacle the_catalog direction tape =
             Return (s, tape')"
  shows "length (obstacles s) = 4 \<and>
         distinct (map fst (obstacles s)) \<and>
         distinct (map snd (obstacles s)) \<and>
         set (map snd (obstacles s)) = {NORTH, WEST, SOUTH, EAST} \<and>
         bij_betw (\<lambda>idx. the (map_of (obstacles s) idx)) (set (map fst (obstacles s)))
           {NORTH, WEST, SOUTH, EAST}"
proof -
  from catalog_generator_Return [OF assms] obtain v tape0 tape1 where
    i: "search_iteration the_catalog direction tape0 = Return (v, tape1)"
    and f: "finish v tape1 = Return (s, tape')"
    by blast
  note K = catalog_layout_keys [OF i f]
  note F = catalog_iteration_facts [OF i]
  have dk: "distinct (map fst (obstacles s))"
    using K(1) F(2) by simp
  have m: "the (map_of (obstacles s) (fst p)) = snd p" if "p \<in> set (obstacles s)" for p
  proof -
    from that have "(fst p, snd p) \<in> set (obstacles s)" by simp
    with dk have "map_of (obstacles s) (fst p) = Some (snd p)"
      by (simp only: map_of_eq_Some_iff)
    then show ?thesis by simp
  qed
  have img: "(\<lambda>idx. the (map_of (obstacles s) idx)) ` set (map fst (obstacles s)) =
               set (map snd (obstacles s))"
  proof -
    have "(\<lambda>idx. the (map_of (obstacles s) idx)) ` fst ` set (obstacles s) =
            (\<lambda>p. the (map_of (obstacles s) (fst p))) ` set (obstacles s)"
      by (simp add: image_image)
    also have "\<dots> = snd ` set (obstacles s)"
      using m by (intro image_cong) auto
    finally show ?thesis by simp
  qed
  have "inj_on (\<lambda>idx. the (map_of (obstacles s) idx)) (set (map fst (obstacles s)))"
  proof (rule inj_onI)
    fix a b
    assume a: "a \<in> set (map fst (obstacles s))" and b: "b \<in> set (map fst (obstacles s))"
      and e: "the (map_of (obstacles s) a) = the (map_of (obstacles s) b)"
    from a obtain x where x: "map_of (obstacles s) a = Some x"
      by (metis map_of_eq_None_iff not_None_eq set_map)
    from b obtain y where y: "map_of (obstacles s) b = Some y"
      by (metis map_of_eq_None_iff not_None_eq set_map)
    from e x y have "x = y" by simp
    with map_of_inj [OF K(2) x] y show "a = b" by simp
  qed
  then have "bij_betw (\<lambda>idx. the (map_of (obstacles s) idx)) (set (map fst (obstacles s)))
           {NORTH, WEST, SOUTH, EAST}"
    unfolding bij_betw_def img K(3) by simp
  with K dk show ?thesis by simp
qed

theorem obstacle_sets_bijection_witness:
  "randomize_and_draw_layout_for_obstacle the_catalog CCW [1, 2, 9, 30, 4, 3, 1, 0, 0, 2, 1, 1] =
     Return (\<lparr>start_section = WEST, start_zone = Z3,
              obstacles = [(9, SOUTH), (27, NORTH), (30, WEST), (4, EAST)],
              parking_section = EAST\<rparr>, []) \<and>
   distinct [9, 27, 30, 4 :: nat] \<and>
   distinct [SOUTH, NORTH, WEST, EAST] \<and>
   set [SOUTH, NORTH, WEST, EAST] = {NORTH, WEST, SOUTH, EAST} \<and>
   bij_betw (\<lambda>idx. the (map_of [(9, SOUTH), (27, NORTH), (30, WEST), (4, EAST)] idx))
     (set [9, 27, 30, 4 :: nat]) {NORTH, WEST, SOUTH, EAST}"
proof -
  have run: "randomize_and_draw_layout_for_obstacle the_catalog CCW
               [1, 2, 9, 30, 4, 3, 1, 0, 0, 2, 1, 1] =
     Return (\<lparr>start_section = WEST, start_zone = Z3,
              obstacles = [(9, SOUTH), (27, NORTH), (30, WEST), (4, EAST)],
              parking_section = EAST\<rparr>, [])"
    by code_simp
  from obstacle_sets_bijection [OF run] run show ?thesis
    by simp
qed

text \<open>
  Claim C5. In every layout the obstacle round returns, the parking section is the
  section of a chosen set drawn by \<^verbatim>\<open>choice\<close> from the list of suitable sets, which holds
  exactly the chosen sets that are parking-eligible; no other chosen set has that
  section, and no obstacle of that set stands at \<open>T3\<close>, \<open>T4\<close> or \<open>X2\<close>.
\<close>

theorem parking_section_eligible:
  assumes "randomize_and_draw_layout_for_obstacle the_catalog direction tape =
             Return (s, tape')"
  shows "\<exists>v tape1 pk tape2 tape3.
    search the_catalog direction tape = Return (v, tape1) \<and>
    set (obstacles_set_suitable_for_parking_section v) =
      {idx \<in> set (map fst (obstacles s)).
         parking_eligible (obstacles_sets the_catalog ! idx)} \<and>
    choice (obstacles_set_suitable_for_parking_section v) tape2 = Return (pk, tape3) \<and>
    map_of (obstacles s) pk = Some (parking_section s) \<and>
    (\<forall>idx. map_of (obstacles s) idx = Some (parking_section s) \<longrightarrow> idx = pk) \<and>
    parking_eligible (obstacles_sets the_catalog ! pk) \<and>
    list_all (\<lambda>ob. position ob \<noteq> T3 \<and> position ob \<noteq> T4 \<and> position ob \<noteq> X2)
      (obstacles_sets the_catalog ! pk)"
proof -
  from catalog_generator_Return [OF assms] obtain v tape0 tape1 where
    i: "search_iteration the_catalog direction tape0 = Return (v, tape1)"
    and se: "search the_catalog direction tape = Return (v, tape1)"
    and f: "finish v tape1 = Return (s, tape')"
    by blast
  note K = catalog_layout_keys [OF i f]
  note F = catalog_iteration_facts [OF i]
  from finish_Return [OF f F(1) F(2)] obtain pk tape2 tape3 where
    c: "choice (obstacles_set_suitable_for_parking_section v) tape2 = Return (pk, tape3)"
    and m: "map_of (obstacles s) pk = Some (parking_section s)"
    by blast
  have su: "set (obstacles_set_suitable_for_parking_section v) =
      {idx \<in> set (map fst (obstacles s)).
         parking_eligible (obstacles_sets the_catalog ! idx)}"
    unfolding K(1) by (rule F(9))
  from choice_member [OF c] su have
    e: "parking_eligible (obstacles_sets the_catalog ! pk)"
    by simp
  then have l: "list_all (\<lambda>ob. position ob \<noteq> T3 \<and> position ob \<noteq> T4 \<and> position ob \<noteq> X2)
      (obstacles_sets the_catalog ! pk)"
    by (simp add: parking_eligible_def forbidden_intersections_in_parking_section_def)
  have u: "\<forall>idx. map_of (obstacles s) idx = Some (parking_section s) \<longrightarrow> idx = pk"
    using map_of_inj [OF K(2) _ m] by blast
  from se su c m u e l show ?thesis by blast
qed

theorem parking_section_eligible_witness:
  "randomize_and_draw_layout_for_obstacle the_catalog CCW [1, 2, 9, 30, 4, 3, 1, 0, 0, 2, 1, 1] =
     Return (\<lparr>start_section = WEST, start_zone = Z3,
              obstacles = [(9, SOUTH), (27, NORTH), (30, WEST), (4, EAST)],
              parking_section = EAST\<rparr>, []) \<and>
   map_of [(9, SOUTH), (27, NORTH), (30, WEST), (4, EAST)] (4::nat) = Some EAST \<and>
   parking_eligible (obstacles_sets the_catalog ! 4) \<and>
   list_all (\<lambda>ob. position ob \<noteq> T3 \<and> position ob \<noteq> T4 \<and> position ob \<noteq> X2)
     (obstacles_sets the_catalog ! 4)"
proof -
  have run: "randomize_and_draw_layout_for_obstacle the_catalog CCW
               [1, 2, 9, 30, 4, 3, 1, 0, 0, 2, 1, 1] =
     Return (\<lparr>start_section = WEST, start_zone = Z3,
              obstacles = [(9, SOUTH), (27, NORTH), (30, WEST), (4, EAST)],
              parking_section = EAST\<rparr>, [])"
    by code_simp
  from parking_section_eligible [OF run] obtain pk where
    u: "\<forall>idx. map_of [(9, SOUTH), (27, NORTH), (30, WEST), (4, EAST)] idx = Some EAST \<longrightarrow>
          idx = pk"
    and e: "parking_eligible (obstacles_sets the_catalog ! pk)"
    and l: "list_all (\<lambda>ob. position ob \<noteq> T3 \<and> position ob \<noteq> T4 \<and> position ob \<noteq> X2)
      (obstacles_sets the_catalog ! pk)"
    by auto
  have four: "map_of [(9, SOUTH), (27, NORTH), (30, WEST), (4, EAST)] (4::nat) = Some EAST"
    by simp
  with u have pk: "pk = 4" by blast
  from run four e [unfolded pk] l [unfolded pk] show ?thesis
    by (intro conjI)
qed

text \<open>
  Claim C6. In every layout the obstacle round returns, the start section is the
  section of a chosen set drawn by \<^verbatim>\<open>choice\<close> from the keys left in
  \<^verbatim>\<open>forbidden_start_zones\<close>, which are exactly the chosen sets with a usable start zone;
  no other chosen set has that section; and the start zone is drawn by \<^verbatim>\<open>choice\<close> from
  the zones of \<open>[Z3, Z4]\<close> that are not forbidden for that set under the direction, so
  it is \<open>Z3\<close> or \<open>Z4\<close> and is not forbidden.
\<close>

theorem start_section_and_zone:
  assumes "randomize_and_draw_layout_for_obstacle the_catalog direction tape =
             Return (s, tape')"
  shows "\<exists>v tape1 st tape2 tape3 tape4.
    search the_catalog direction tape = Return (v, tape1) \<and>
    set (map fst (forbidden_start_zones v)) =
      {idx \<in> set (map fst (obstacles s)).
         usable_start_zone direction (obstacles_sets the_catalog ! idx)} \<and>
    choice (map fst (forbidden_start_zones v)) tape2 = Return (st, tape3) \<and>
    map_of (obstacles s) st = Some (start_section s) \<and>
    (\<forall>idx. map_of (obstacles s) idx = Some (start_section s) \<longrightarrow> idx = st) \<and>
    usable_start_zone direction (obstacles_sets the_catalog ! st) \<and>
    choice (filter (\<lambda>zone. \<not> zone_forbidden direction zone (obstacles_sets the_catalog ! st))
              [Z3, Z4]) tape4 = Return (start_zone s, tape') \<and>
    (start_zone s = Z3 \<or> start_zone s = Z4) \<and>
    \<not> zone_forbidden direction (start_zone s) (obstacles_sets the_catalog ! st)"
proof -
  from catalog_generator_Return [OF assms] obtain v tape0 tape1 where
    i: "search_iteration the_catalog direction tape0 = Return (v, tape1)"
    and se: "search the_catalog direction tape = Return (v, tape1)"
    and f: "finish v tape1 = Return (s, tape')"
    by blast
  note K = catalog_layout_keys [OF i f]
  note F = catalog_iteration_facts [OF i]
  from finish_Return [OF f F(1) F(2)] obtain st tape2 tape3 forb tape4 where
    c: "choice (map fst (forbidden_start_zones v)) tape2 = Return (st, tape3)"
    and m: "map_of (obstacles s) st = Some (start_section s)"
    and g: "map_of (forbidden_start_zones v) st = Some forb"
    and z: "choice (filter (\<lambda>zone. zone \<notin> set forb) [Z3, Z4]) tape4 =
              Return (start_zone s, tape')"
    by blast
  have all: "usable_start_zone direction (obstacles_sets the_catalog ! idx)"
    if "idx \<in> set (chosen_obstacles_sets_indices v)" for idx
    using that F(3) catalog_nth(2) by (simp add: list_all_iff)
  have keys: "set (map fst (forbidden_start_zones v)) =
      {idx \<in> set (map fst (obstacles s)).
         usable_start_zone direction (obstacles_sets the_catalog ! idx)}"
    unfolding K(1) F(7) using all by blast
  from choice_member [OF c] have st: "st \<in> set (chosen_obstacles_sets_indices v)"
    unfolding F(7) .
  with F(8) g have
    forb: "set forb = {z. zone_forbidden direction z (obstacles_sets the_catalog ! st)}"
    by auto
  have "filter (\<lambda>zone. zone \<notin> set forb) [Z3, Z4] =
        filter (\<lambda>zone. \<not> zone_forbidden direction zone (obstacles_sets the_catalog ! st))
          [Z3, Z4]"
    unfolding forb by simp
  with z have z': "choice
      (filter (\<lambda>zone. \<not> zone_forbidden direction zone (obstacles_sets the_catalog ! st))
         [Z3, Z4]) tape4 = Return (start_zone s, tape')"
    by simp
  from choice_member [OF z'] have
    zone: "start_zone s = Z3 \<or> start_zone s = Z4"
      "\<not> zone_forbidden direction (start_zone s) (obstacles_sets the_catalog ! st)"
    by (auto simp del: filter.simps)
  have u: "\<forall>idx. map_of (obstacles s) idx = Some (start_section s) \<longrightarrow> idx = st"
    using map_of_inj [OF K(2) _ m] by blast
  from se keys c m u all [OF st] z' zone show ?thesis by blast
qed

theorem start_section_and_zone_witness:
  "randomize_and_draw_layout_for_obstacle the_catalog CCW [1, 2, 9, 30, 4, 3, 1, 0, 0, 2, 1, 1] =
     Return (\<lparr>start_section = WEST, start_zone = Z3,
              obstacles = [(9, SOUTH), (27, NORTH), (30, WEST), (4, EAST)],
              parking_section = EAST\<rparr>, []) \<and>
   map_of [(9, SOUTH), (27, NORTH), (30, WEST), (4, EAST)] (30::nat) = Some WEST \<and>
   usable_start_zone CCW (obstacles_sets the_catalog ! 30) \<and>
   \<not> zone_forbidden CCW Z3 (obstacles_sets the_catalog ! 30) \<and>
   zone_forbidden CCW Z4 (obstacles_sets the_catalog ! 30)"
proof -
  have run: "randomize_and_draw_layout_for_obstacle the_catalog CCW
               [1, 2, 9, 30, 4, 3, 1, 0, 0, 2, 1, 1] =
     Return (\<lparr>start_section = WEST, start_zone = Z3,
              obstacles = [(9, SOUTH), (27, NORTH), (30, WEST), (4, EAST)],
              parking_section = EAST\<rparr>, [])"
    by code_simp
  from start_section_and_zone [OF run] obtain st where
    u: "\<forall>idx. map_of [(9, SOUTH), (27, NORTH), (30, WEST), (4, EAST)] idx = Some WEST \<longrightarrow>
          idx = st"
    and e: "usable_start_zone CCW (obstacles_sets the_catalog ! st)"
    and n: "\<not> zone_forbidden CCW Z3 (obstacles_sets the_catalog ! st)"
    by auto
  have thirty: "map_of [(9, SOUTH), (27, NORTH), (30, WEST), (4, EAST)] (30::nat) = Some WEST"
    by simp
  with u have st: "st = 30" by blast
  have f: "zone_forbidden CCW Z4 (obstacles_sets the_catalog ! 30)"
    by code_simp
  from run thirty e [unfolded st] n [unfolded st] f show ?thesis
    by (intro conjI)
qed

text \<open>
  Claim C7. For both directions no obstacle set of the catalog forbids both \<open>Z3\<close> and
  \<open>Z4\<close>. So after every pass of the loop \<^verbatim>\<open>forbidden_start_zones\<close> still has the four
  chosen indices as its keys and no entry of two zones: the deleting branch was not
  taken, and neither a pass of the loop, nor the loop, nor the generator raises
  \<^verbatim>\<open>RuntimeError\<close>.
\<close>

theorem deleting_branch_unreachable:
  "list_all (\<lambda>one_set. \<not> (zone_forbidden direction Z3 one_set \<and>
                            zone_forbidden direction Z4 one_set))
     (obstacles_sets the_catalog) \<and>
   (search_iteration the_catalog direction tape = Return (v, tape1) \<longrightarrow>
      map fst (forbidden_start_zones v) = chosen_obstacles_sets_indices v \<and>
      length (forbidden_start_zones v) = 4 \<and>
      (\<forall>idx zones. map_of (forbidden_start_zones v) idx = Some zones \<longrightarrow>
         length zones \<noteq> 2)) \<and>
   search_iteration the_catalog direction tape \<noteq> Raise RuntimeError \<and>
   search the_catalog direction tape \<noteq> Raise RuntimeError \<and>
   randomize_and_draw_layout_for_obstacle the_catalog direction tape \<noteq> Raise RuntimeError"
proof (intro conjI impI allI)
  show "list_all (\<lambda>one_set. \<not> (zone_forbidden direction Z3 one_set \<and>
                            zone_forbidden direction Z4 one_set))
     (obstacles_sets the_catalog)"
    using catalog_usable [of direction]
    by (auto simp: list_all_iff usable_start_zone_def)
next
  assume i: "search_iteration the_catalog direction tape = Return (v, tape1)"
  note F = catalog_iteration_facts [OF i]
  show keys: "map fst (forbidden_start_zones v) = chosen_obstacles_sets_indices v"
    by (rule F(7))
  show "length (forbidden_start_zones v) = 4"
    using F(7) F(1) by (metis length_map)
  fix idx zones
  assume m: "map_of (forbidden_start_zones v) idx = Some zones"
  then have "idx \<in> set (map fst (forbidden_start_zones v))"
    by (metis map_of_eq_None_iff option.distinct(1) set_map)
  then have k: "idx \<in> set (chosen_obstacles_sets_indices v)"
    unfolding keys .
  with F(8) m have z: "distinct zones"
    "set zones = {z. zone_forbidden direction z (obstacles_sets the_catalog ! idx)}"
    by auto
  from k F(3) have "idx < 32" by (simp add: list_all_iff)
  from catalog_nth(2) [OF this] zones_length [OF z]
  show "length zones \<noteq> 2" by simp
next
  show "search_iteration the_catalog direction tape \<noteq> Raise RuntimeError"
    by (rule catalog_iteration_no_Raise)
  show "search the_catalog direction tape \<noteq> Raise RuntimeError"
    by (rule catalog_search_no_Raise)
  show "randomize_and_draw_layout_for_obstacle the_catalog direction tape \<noteq>
          Raise RuntimeError"
    by (rule catalog_generator_no_Raise)
qed

theorem deleting_branch_unreachable_witness:
  "search_iteration the_catalog CW [0, 0, 15, 0, 0, 0, 0, 0, 0, 0, 0] =
     Return (\<lparr>chosen_obstacles_sets_indices = [8, 21, 15, 0],
              forbidden_start_zones = [(8, [Z4]), (21, [Z3]), (15, [Z3]), (0, [Z3])],
              obstacles_set_conflicting_with_parking_section = [15, 8],
              obstacles_amount = 6, green_amount = 3, red_amount = 3,
              obstacles_set_suitable_for_parking_section = [21, 0],
              satisfied = True\<rparr>, [0, 0, 0, 0, 0, 0, 0]) \<and>
   map fst [(8, [Z4]), (21, [Z3]), (15, [Z3]), (0, [Z3])] = [8, 21, 15, 0 :: nat] \<and>
   length (the (map_of [(8, [Z4]), (21, [Z3]), (15, [Z3]), (0, [Z3])] (8 :: nat))) \<noteq> 2 \<and>
   length (the (map_of [(8, [Z4]), (21, [Z3]), (15, [Z3]), (0, [Z3])] (21 :: nat))) \<noteq> 2 \<and>
   length (the (map_of [(8, [Z4]), (21, [Z3]), (15, [Z3]), (0, [Z3])] (15 :: nat))) \<noteq> 2 \<and>
   length (the (map_of [(8, [Z4]), (21, [Z3]), (15, [Z3]), (0, [Z3])] (0 :: nat))) \<noteq> 2 \<and>
   list_all (\<lambda>one_set. \<not> (zone_forbidden CW Z3 one_set \<and> zone_forbidden CW Z4 one_set))
     (obstacles_sets the_catalog)"
proof -
  have i: "search_iteration the_catalog CW [0, 0, 15, 0, 0, 0, 0, 0, 0, 0, 0] =
     Return (\<lparr>chosen_obstacles_sets_indices = [8, 21, 15, 0],
              forbidden_start_zones = [(8, [Z4]), (21, [Z3]), (15, [Z3]), (0, [Z3])],
              obstacles_set_conflicting_with_parking_section = [15, 8],
              obstacles_amount = 6, green_amount = 3, red_amount = 3,
              obstacles_set_suitable_for_parking_section = [21, 0],
              satisfied = True\<rparr>, [0, 0, 0, 0, 0, 0, 0])"
    by code_simp
  note t = deleting_branch_unreachable [of CW "[0, 0, 15, 0, 0, 0, 0, 0, 0, 0, 0]"]
  from t [THEN conjunct2, THEN conjunct1, rule_format, OF i] have
    a: "map fst [(8, [Z4]), (21, [Z3]), (15, [Z3]), (0, [Z3])] = [8, 21, 15, 0 :: nat]"
    and b: "\<forall>idx zones. map_of [(8, [Z4]), (21, [Z3]), (15, [Z3]), (0, [Z3])] (idx :: nat) =
        Some zones \<longrightarrow> length zones \<noteq> 2"
    by simp_all
  have c: "length (the (map_of [(8, [Z4]), (21, [Z3]), (15, [Z3]), (0, [Z3])] k)) \<noteq> 2"
    if "k \<in> {8, 21, 15, 0 :: nat}" for k
  proof -
    from that obtain zones where
      "map_of [(8, [Z4]), (21, [Z3]), (15, [Z3]), (0, [Z3])] k = Some zones"
      by auto
    with b show ?thesis by auto
  qed
  from t [THEN conjunct1] i a c [of 8] c [of 21] c [of 15] c [of 0] show ?thesis
    by simp
qed

text \<open>
  The deleting branch does raise in the model: in a catalog whose set 8 holds an
  obstacle at \<open>X2\<close> and one at \<open>T1\<close>, both zones are forbidden clockwise for set 8, the
  loop deletes its entry and the next step of the iteration raises.
\<close>

lemma deleting_branch_raises:
  "search_iteration
     (the_catalog\<lparr>obstacles_sets :=
        (obstacles_sets the_catalog)
          [8 := [Obstacle_init X2 GREEN, Obstacle_init T1 GREEN]]\<rparr>)
     CW [0, 0, 15, 0] = Raise RuntimeError"
  by code_simp

lemma color_partition:
  assumes "list_all (\<lambda>ob. color ob = GREEN \<or> color ob = RED) obs"
  shows "int (length (filter (\<lambda>ob. color ob = GREEN) obs)) +
         int (length (filter (\<lambda>ob. color ob = RED) obs)) = int (length obs)"
  using assms by (induction obs) auto

lemma count_partition:
  assumes "list_all (\<lambda>idx. list_all (\<lambda>ob. color ob = GREEN \<or> color ob = RED)
             (obstacles_sets cat ! idx)) chosen"
  shows "count_color GREEN cat chosen + count_color RED cat chosen =
           count_obstacles cat chosen"
  using assms
proof (induction chosen)
  case Nil
  then show ?case by (simp add: count_color_def count_obstacles_def)
next
  case (Cons idx rest)
  then have "count_color GREEN cat rest + count_color RED cat rest =
           count_obstacles cat rest" by simp
  moreover from Cons.prems have
    "int (length (filter (\<lambda>ob. color ob = GREEN) (obstacles_sets cat ! idx))) +
     int (length (filter (\<lambda>ob. color ob = RED) (obstacles_sets cat ! idx))) =
     int (length (obstacles_sets cat ! idx))"
    by (intro color_partition) simp
  ultimately show ?case
    by (simp add: count_color_def count_obstacles_def)
qed

text \<open>
  Claim C8. Tallying the colour of an obstacle raises exactly when its colour is neither
  green nor red, and the error is \<^verbatim>\<open>ValueError\<close>; for any catalog and chosen indices in
  range the loop over the chosen sets raises exactly when one of their obstacles has
  such a colour. With the catalog of the module neither a pass of the loop nor the
  generator raises \<^verbatim>\<open>ValueError\<close>, and after a pass every obstacle of the chosen sets
  has been counted once, as green or as red.
\<close>

theorem invalid_color_error:
  "((tally_color ob w = Raise e) =
      (e = ValueError \<and> color ob \<noteq> GREEN \<and> color ob \<noteq> RED)) \<and>
   (list_all (\<lambda>idx. idx < length (obstacles_sets cat)) chosen \<longrightarrow>
      (sets_loop cat direction chosen w = Raise e) =
        (e = ValueError \<and>
         list_ex (\<lambda>idx. list_ex (\<lambda>ob. color ob \<noteq> GREEN \<and> color ob \<noteq> RED)
                    (obstacles_sets cat ! idx)) chosen)) \<and>
   search_iteration the_catalog direction tape \<noteq> Raise ValueError \<and>
   randomize_and_draw_layout_for_obstacle the_catalog direction tape \<noteq> Raise ValueError \<and>
   (search_iteration the_catalog direction tape = Return (v, tape1) \<longrightarrow>
      green_amount v = count_color GREEN the_catalog (chosen_obstacles_sets_indices v) \<and>
      red_amount v = count_color RED the_catalog (chosen_obstacles_sets_indices v) \<and>
      green_amount v + red_amount v = obstacles_amount v \<and>
      obstacles_amount v = count_obstacles the_catalog (chosen_obstacles_sets_indices v))"
proof (intro conjI impI)
  show "(tally_color ob w = Raise e) =
      (e = ValueError \<and> color ob \<noteq> GREEN \<and> color ob \<noteq> RED)"
    by (rule tally_color_Raise)
next
  assume range: "list_all (\<lambda>idx. idx < length (obstacles_sets cat)) chosen"
  let ?bad = "list_ex (\<lambda>idx. list_ex (\<lambda>ob. color ob \<noteq> GREEN \<and> color ob \<noteq> RED)
                    (obstacles_sets cat ! idx)) chosen"
  have forth: "e' = ValueError \<and> ?bad" if "sets_loop cat direction chosen w = Raise e'" for e'
    using sets_loop_Raise [OF that] range
    by (auto simp: list_all_iff list_ex_iff)
  have conv: "sets_loop cat direction chosen w = Raise ValueError" if "?bad"
  proof (cases "sets_loop cat direction chosen w")
    case Starved
    then show ?thesis by (simp add: sets_loop_not_Starved)
  next
    case (Raise e')
    with forth show ?thesis by simp
  next
    case (Return v')
    from sets_loop_Return [OF this] that show ?thesis
      by (auto simp: list_all_iff list_ex_iff)
  qed
  show "(sets_loop cat direction chosen w = Raise e) = (e = ValueError \<and> ?bad)"
    using forth conv by blast
next
  show "search_iteration the_catalog direction tape \<noteq> Raise ValueError"
    by (rule catalog_iteration_no_Raise)
  show "randomize_and_draw_layout_for_obstacle the_catalog direction tape \<noteq>
          Raise ValueError"
    by (rule catalog_generator_no_Raise)
next
  assume i: "search_iteration the_catalog direction tape = Return (v, tape1)"
  note F = catalog_iteration_facts [OF i]
  show "green_amount v = count_color GREEN the_catalog (chosen_obstacles_sets_indices v)"
    "red_amount v = count_color RED the_catalog (chosen_obstacles_sets_indices v)"
    "obstacles_amount v = count_obstacles the_catalog (chosen_obstacles_sets_indices v)"
    by (rule F(5), rule F(6), rule F(4))
  have "list_all (\<lambda>idx. list_all (\<lambda>ob. color ob = GREEN \<or> color ob = RED)
             (obstacles_sets the_catalog ! idx)) (chosen_obstacles_sets_indices v)"
    using F(3) catalog_nth(1) by (auto simp: list_all_iff)
  from count_partition [OF this] show "green_amount v + red_amount v = obstacles_amount v"
    unfolding F(4) F(5) F(6) .
qed

theorem invalid_color_error_witness:
  "list_all (\<lambda>idx. idx < length [[Obstacle_init T1 GREEN, Obstacle_init T2 UNDEFINED]])
     [0 :: nat] \<and>
   sets_loop \<lparr>obstacles_sets = [[Obstacle_init T1 GREEN, Obstacle_init T2 UNDEFINED]],
              mandatory_obstacles_sets = [], required_obstacles_sets = []\<rparr>
     CW [0] (init_vars [0]) = Raise ValueError \<and>
   tally_color (Obstacle_init T2 UNDEFINED) (init_vars [0]) = Raise ValueError \<and>
   search_iteration the_catalog CW [0, 0, 15, 0, 0, 0, 0, 0, 0, 0, 0] =
     Return (\<lparr>chosen_obstacles_sets_indices = [8, 21, 15, 0],
              forbidden_start_zones = [(8, [Z4]), (21, [Z3]), (15, [Z3]), (0, [Z3])],
              obstacles_set_conflicting_with_parking_section = [15, 8],
              obstacles_amount = 6, green_amount = 3, red_amount = 3,
              obstacles_set_suitable_for_parking_section = [21, 0],
              satisfied = True\<rparr>, [0, 0, 0, 0, 0, 0, 0]) \<and>
   count_color GREEN the_catalog [8, 21, 15, 0] = 3 \<and>
   count_color RED the_catalog [8, 21, 15, 0] = 3 \<and>
   count_obstacles the_catalog [8, 21, 15, 0] = 6"
proof -
  let ?cat = "\<lparr>obstacles_sets = [[Obstacle_init T1 GREEN, Obstacle_init T2 UNDEFINED]],
              mandatory_obstacles_sets = [], required_obstacles_sets = []\<rparr>"
  have i: "search_iteration the_catalog CW [0, 0, 15, 0, 0, 0, 0, 0, 0, 0, 0] =
     Return (\<lparr>chosen_obstacles_sets_indices = [8, 21, 15, 0],
              forbidden_start_zones = [(8, [Z4]), (21, [Z3]), (15, [Z3]), (0, [Z3])],
              obstacles_set_conflicting_with_parking_section = [15, 8],
              obstacles_amount = 6, green_amount = 3, red_amount = 3,
              obstacles_set_suitable_for_parking_section = [21, 0],
              satisfied = True\<rparr>, [0, 0, 0, 0, 0, 0, 0])"
    by code_simp
  have r: "list_all (\<lambda>idx. idx < length (obstacles_sets ?cat)) [0 :: nat]"
    by simp
  have bad: "list_ex (\<lambda>idx. list_ex (\<lambda>ob. color ob \<noteq> GREEN \<and> color ob \<noteq> RED)
                    (obstacles_sets ?cat ! idx)) [0 :: nat]"
    by (simp add: Obstacle_init_def)
  note t = invalid_color_error [where ob = "Obstacle_init T2 UNDEFINED"
      and w = "init_vars [0]" and e = ValueError and cat = ?cat and chosen = "[0]"
      and direction = CW and tape = "[0, 0, 15, 0, 0, 0, 0, 0, 0, 0, 0]"]
  from t [THEN conjunct1] have a: "tally_color (Obstacle_init T2 UNDEFINED) (init_vars [0]) =
      Raise ValueError"
    by (simp add: Obstacle_init_def)
  from t [THEN conjunct2, THEN conjunct1, rule_format, OF r] bad have
    b: "sets_loop ?cat CW [0] (init_vars [0]) = Raise ValueError"
    by simp
  from t [THEN conjunct2, THEN conjunct2, THEN conjunct2, THEN conjunct2, rule_format, OF i]
  have c: "count_color GREEN the_catalog [8, 21, 15, 0] = 3"
    "count_color RED the_catalog [8, 21, 15, 0] = 3"
    "count_obstacles the_catalog [8, 21, 15, 0] = 6"
    by simp_all
  from r a b i c show ?thesis
    by simp
qed

lemma search_st_eq:
  "search_st direction tape st = (st, search st direction tape)"
proof (induction tape arbitrary: st rule: length_induct)
  case (1 tape)
  note i = search_iteration_st_eq [of direction tape st]
  show ?case
  proof (cases "search_iteration st direction tape")
    case Starved
    with i show ?thesis
      by (subst search_st.simps, subst search.simps) simp
  next
    case (Raise e)
    with i show ?thesis
      by (subst search_st.simps, subst search.simps) simp
  next
    case (Return p)
    obtain v tape' where p: "p = (v, tape')" by (cases p)
    from Return p have r: "search_iteration st direction tape = Return (v, tape')"
      by simp
    from search_iteration_shorter [OF r] "1.IH"
    have "search_st direction tape' st = (st, search st direction tape')"
      by simp
    with i r show ?thesis
      by (subst search_st.simps, subst search.simps) simp
  qed
qed

lemma randomize_and_draw_layout_for_obstacle_st_eq:
  "randomize_and_draw_layout_for_obstacle_st direction tape st =
     (st, randomize_and_draw_layout_for_obstacle st direction tape)"
  unfolding randomize_and_draw_layout_for_obstacle_st_def
    randomize_and_draw_layout_for_obstacle_def search_st_eq
  by (cases "search st direction tape") (simp_all split: prod.split)

lemma generation_calls_eq:
  "generation_calls st requests =
     (st, map (\<lambda>request. randomize_and_draw_layout_for_obstacle st (fst request) (snd request))
            requests)"
  by (induction requests)
     (simp_all add: generation_call_def randomize_and_draw_layout_for_obstacle_st_eq)

text \<open>
  The store can tell a call that assigns from one that does not: \<^verbatim>\<open>set_color\<close> on the
  obstacle of set 9 gives another store, and the same request has another outcome on
  it.
\<close>

lemma set_color_at_changes_store:
  "obstacles_sets the_catalog ! 9 = [Obstacle_init X2 RED] \<and>
   obstacles_sets (set_color_at the_catalog 9 0 GREEN) ! 9 = [Obstacle_init X2 GREEN] \<and>
   set_color_at the_catalog 9 0 GREEN \<noteq> the_catalog \<and>
   snd (generation_call the_catalog (CCW, [1, 2, 9, 30, 4, 3, 1, 0, 0, 2, 1, 1])) =
     Return (\<lparr>start_section = WEST, start_zone = Z3,
               obstacles = [(9, SOUTH), (27, NORTH), (30, WEST), (4, EAST)],
               parking_section = EAST\<rparr>, []) \<and>
   snd (generation_call (set_color_at the_catalog 9 0 GREEN)
          (CCW, [1, 2, 9, 30, 4, 3, 1, 0, 0, 2, 1, 1])) = Starved"
proof -
  have a: "obstacles_sets the_catalog ! 9 = [Obstacle_init X2 RED]"
    by code_simp
  have b: "obstacles_sets (set_color_at the_catalog 9 0 GREEN) ! 9 = [Obstacle_init X2 GREEN]"
    by code_simp
  from a b have c: "set_color_at the_catalog 9 0 GREEN \<noteq> the_catalog"
    by (auto simp: Obstacle_init_def)
  have d: "randomize_and_draw_layout_for_obstacle the_catalog CCW
             [1, 2, 9, 30, 4, 3, 1, 0, 0, 2, 1, 1] =
     Return (\<lparr>start_section = WEST, start_zone = Z3,
               obstacles = [(9, SOUTH), (27, NORTH), (30, WEST), (4, EAST)],
               parking_section = EAST\<rparr>, [])"
    by code_simp
  have e: "randomize_and_draw_layout_for_obstacle (set_color_at the_catalog 9 0 GREEN) CCW
             [1, 2, 9, 30, 4, 3, 1, 0, 0, 2, 1, 1] = Starved"
    by code_simp
  from d e have f:
    "snd (generation_call the_catalog (CCW, [1, 2, 9, 30, 4, 3, 1, 0, 0, 2, 1, 1])) =
     Return (\<lparr>start_section = WEST, start_zone = Z3,
               obstacles = [(9, SOUTH), (27, NORTH), (30, WEST), (4, EAST)],
               parking_section = EAST\<rparr>, [])"
    "snd (generation_call (set_color_at the_catalog 9 0 GREEN)
          (CCW, [1, 2, 9, 30, 4, 3, 1, 0, 0, 2, 1, 1])) = Starved"
    by (simp_all only: generation_call_def randomize_and_draw_layout_for_obstacle_st_eq
          fst_conv snd_conv)
  from a b c f show ?thesis by (intro conjI)
qed

text \<open>
  Claim C10. The solver (the rejection loop and the assignment of sections, start and
  parking) leaves the catalog as it is: after any sequence of calls on the store,
  whatever their directions, draws and outcomes, the store is the store before the
  first call; so the three tables are unchanged, every obstacle set keeps its length
  and every obstacle its position and colour, and each call has the outcome it has on
  the catalog before the first call.
\<close>

theorem catalog_never_mutated:
  "fst (generation_calls cat requests) = cat \<and>
   obstacles_sets (fst (generation_calls cat requests)) = obstacles_sets cat \<and>
   mandatory_obstacles_sets (fst (generation_calls cat requests)) =
     mandatory_obstacles_sets cat \<and>
   required_obstacles_sets (fst (generation_calls cat requests)) =
     required_obstacles_sets cat \<and>
   map (map position) (obstacles_sets (fst (generation_calls cat requests))) =
     map (map position) (obstacles_sets cat) \<and>
   map (map color) (obstacles_sets (fst (generation_calls cat requests))) =
     map (map color) (obstacles_sets cat) \<and>
   length (snd (generation_calls cat requests)) = length requests \<and>
   snd (generation_calls cat requests) =
     map (\<lambda>request. randomize_and_draw_layout_for_obstacle cat (fst request) (snd request))
       requests"
  by (simp add: generation_calls_eq)

theorem catalog_never_mutated_witness:
  "fst (generation_calls the_catalog
          [(CCW, [1, 2, 9, 30, 4, 3, 1, 0, 0, 2, 1, 1]), (CW, []), (CW, [0, 0, 0, 2])]) =
     the_catalog \<and>
   snd (generation_calls the_catalog
          [(CCW, [1, 2, 9, 30, 4, 3, 1, 0, 0, 2, 1, 1]), (CW, []), (CW, [0, 0, 0, 2])]) =
     [Return (\<lparr>start_section = WEST, start_zone = Z3,
               obstacles = [(9, SOUTH), (27, NORTH), (30, WEST), (4, EAST)],
               parking_section = EAST\<rparr>, []),
      Starved, Starved]"
proof -
  have out: "map (\<lambda>request. randomize_and_draw_layout_for_obstacle the_catalog
                    (fst request) (snd request))
          [(CCW, [1, 2, 9, 30, 4, 3, 1, 0, 0, 2, 1, 1]), (CW, []), (CW, [0, 0, 0, 2])] =
     [Return (\<lparr>start_section = WEST, start_zone = Z3,
               obstacles = [(9, SOUTH), (27, NORTH), (30, WEST), (4, EAST)],
               parking_section = EAST\<rparr>, []),
      Starved, Starved]"
    by code_simp
  note t = catalog_never_mutated [of the_catalog
      "[(CCW, [1, 2, 9, 30, 4, 3, 1, 0, 0, 2, 1, 1]), (CW, []), (CW, [0, 0, 0, 2])]"]
  from t have a: "fst (generation_calls the_catalog
          [(CCW, [1, 2, 9, 30, 4, 3, 1, 0, 0, 2, 1, 1]), (CW, []), (CW, [0, 0, 0, 2])]) =
     the_catalog"
    by (rule conjunct1)
  from t have b: "snd (generation_calls the_catalog
          [(CCW, [1, 2, 9, 30, 4, 3, 1, 0, 0, 2, 1, 1]), (CW, []), (CW, [0, 0, 0, 2])]) =
      map (\<lambda>request. randomize_and_draw_layout_for_obstacle the_catalog
                    (fst request) (snd request))
          [(CCW, [1, 2, 9, 30, 4, 3, 1, 0, 0, 2, 1, 1]), (CW, []), (CW, [0, 0, 0, 2])]"
    by (elim conjE)
  from a b out show ?thesis
    by (simp only:)
qed

end
